theory Spec2Isabelle
  imports Main "HOL-Library.Word" "HOL-Library.Multiset"
begin

section \<open>Data model\<close>

text \<open>
  The repository holds two versions of the uploader: \<^verbatim>\<open>src/main.go\<close> and the file
  \<^verbatim>\<open>src/unnamed/part_000\<close>. The second one adds the resume and complete calls, checks
  the answer of every fragment upload, and reads every fragment into a buffer of its own.
  Its definitions carry the names of the source; the definitions that follow
  \<^verbatim>\<open>src/main.go\<close> where it differs carry the suffix \<open>_mg\<close>.

  Go's \<^verbatim>\<open>int\<close> and \<^verbatim>\<open>int64\<close> are modelled by \<^typ>\<open>int\<close>: the only arithmetic is a
  fragment counter, byte counts of buffers that were allocated, and the offsets of a file
  that was read, all far from the 64-bit range. Messages written with the \<^verbatim>\<open>log\<close>
  package under \<^verbatim>\<open>if *debug\<close> are left out; the effect of \<^verbatim>\<open>*debug\<close> on the control
  flow is kept.

  The language is Go as it was when the code was written (it uses \<^verbatim>\<open>io/ioutil\<close>, and the
  repository has no \<^verbatim>\<open>go.mod\<close> that asks for a later version): before Go 1.22 the
  variable of a \<^verbatim>\<open>for ... range\<close> loop is one variable for all iterations, and a closure
  that mentions it reads the value it has when the closure runs.
\<close>

type_synonym byte = "8 word"
type_synonym bytes = "byte list"

record UploadConfigBlock =
  PartSize :: int
  Parallel :: int
  RetryCount :: int
  RetryDurationSeconds :: int

record UploadConfigResp =
  Result :: int
  Host :: string
  Config :: UploadConfigBlock
  TaskID :: string
  Token :: string

record UploadPart =
  content :: bytes
  count :: int

text \<open>\<^verbatim>\<open>UploadPartResult\<close>; its field \<^verbatim>\<open>Result\<close> is \<open>PartResult\<close> here, since
  \<open>Result\<close> is the field of \<^typ>\<open>UploadConfigResp\<close>.\<close>

record UploadPartResult =
  PartResult :: int
  Checksum :: string
  Size :: int

text \<open>The command-line flags \<^verbatim>\<open>token\<close>, \<^verbatim>\<open>uid\<close> and \<^verbatim>\<open>verbose\<close> (the variable
  \<^verbatim>\<open>debug\<close>).\<close>

record flags =
  token :: string
  uid :: string
  debug :: bool

text \<open>What the code uses of an \<^verbatim>\<open>os.FileInfo\<close>: the methods \<^verbatim>\<open>Name()\<close> and
  \<^verbatim>\<open>Size()\<close>.\<close>

record FileInfo =
  info_Name :: string
  info_Size :: int

datatype error =
    StatError | OpenError | TransportError | ReadBodyError | UnmarshalError | EOF | ReadError

section \<open>The environment: files and the remote service\<close>

text \<open>
  An open file is the bytes not yet read and what \<^verbatim>\<open>Read\<close> answers once they are used
  up: \<^verbatim>\<open>io.EOF\<close>, or another error (a failing device). \<^verbatim>\<open>file.Read(buf)\<close> on a regular
  file fills the buffer as far as bytes remain; with an empty buffer it returns
  \<^verbatim>\<open>0, nil\<close>. The result is the count \<^verbatim>\<open>nr\<close>, the buffer after the call (the bytes
  read at its front, the rest as it was), the error, and the file with its cursor advanced.
\<close>

datatype ending = AtEOF | Failing

record osfile =
  unread :: bytes
  ending :: ending

definition file_Read :: "osfile \<Rightarrow> bytes \<Rightarrow> int \<times> bytes \<times> error option \<times> osfile" where
  "file_Read f buf =
     (if buf = [] then (0, buf, None, f)
      else if unread f = [] then
        (0, buf, Some (case ending f of AtEOF \<Rightarrow> EOF | Failing \<Rightarrow> ReadError), f)
      else
        (let got = take (length buf) (unread f)
         in (int (length got), got @ drop (length got) buf, None,
             f\<lparr>unread := drop (length buf) (unread f)\<rparr>)))"

text \<open>\<^verbatim>\<open>make([]byte, n)\<close>: a zeroed buffer; a length that is negative or beyond what can
  be allocated is a run-time panic, which the callers below check (\<open>make_panics\<close>) before
  they call it.\<close>

definition make_bytes :: "int \<Rightarrow> bytes" where
  "make_bytes n = replicate (nat n) 0"

text \<open>
  The requests of the program, one constructor for each URL it builds:
  \<^item> \<open>GetKSCloudToken fileName size\<close>: POST to \<^verbatim>\<open>UploadConfig\<close> (with \<^verbatim>\<open>template=1\<close>);
  \<^item> \<open>ResumeReq upload_token\<close>: GET \<^verbatim>\<open>UploadResume\<close>;
  \<^item> \<open>FragmentReq upload_token fragment_id body start end total\<close>: POST to
    \<^verbatim>\<open>UploadEndpoint\<close> with the header \<^verbatim>\<open>Content-Range: bytes start-end/total\<close>;
  \<^item> \<open>FragmentReq_mg fragment_id upload_token body\<close>: the same POST in \<^verbatim>\<open>src/main.go\<close>,
    which sends no range;
  \<^item> \<open>CompleteReq fragment_count upload_token\<close>: POST to \<^verbatim>\<open>UploadComplete\<close>;
  \<^item> \<open>CreateVideoReq videoKey path\<close>: POST to \<^verbatim>\<open>CreateVideo\<close> (with
    \<^verbatim>\<open>vodType=ksCloud\<close>); the form field \<^verbatim>\<open>fileName\<close> is \<^verbatim>\<open>path.Base\<close> of the path
    recorded here;
  \<^item> \<open>UploadFinishReq taskId\<close>: POST to \<^verbatim>\<open>UploadFinish\<close>.
\<close>

datatype request =
    GetKSCloudToken string int
  | ResumeReq string
  | FragmentReq string int bytes int int int
  | FragmentReq_mg int string bytes
  | CompleteReq int string
  | CreateVideoReq string string
  | UploadFinishReq string

text \<open>
  What happens to a request: \<^verbatim>\<open>client.Do\<close> fails; or it answers with a status code and
  \<^verbatim>\<open>ioutil.ReadAll\<close> of the body fails; or status code and body arrive. A body is
  represented by what \<^verbatim>\<open>json.Unmarshal\<close> makes of it: \<open>None\<close> when it returns an error,
  the decoded struct otherwise. \<^verbatim>\<open>http.NewRequest\<close> is taken to succeed: this is an
  assumption on the token that the service sends, which \<^verbatim>\<open>uploadRequest\<close> and
  \<^verbatim>\<open>uploader\<close> put into their URLs as it is; the URLs of \<^verbatim>\<open>request\<close> are constants.
\<close>

datatype 'a exchange = DoFails | ReadFails int | Response int "'a option"

text \<open>The effects of the program on its surroundings, in the order of their occurrence.
  \<open>Enq\<close> is \<^verbatim>\<open>wg.Add(1)\<close> with the send of a new part on the channel, \<open>Ack\<close> is
  \<^verbatim>\<open>bar.Add(len(item.content))\<close> with \<^verbatim>\<open>wg.Done()\<close>, \<open>Requeue\<close> is a part that is
  offered on the channel again.\<close>

datatype event =
    Println string
  | Printf_error string error
  | Logf_error string error
  | Usage
  | Stat string
  | Open string
  | FileRead int
  | FileClose
  | Send request
  | BarStart int
  | BarFinish
  | GoUploader
  | Enq UploadPart
  | Ack UploadPart
  | Requeue UploadPart
  | WgWait
  | ChanClose

text \<open>
  The surroundings of a run: the file system, the remote service, and the largest length
  for which \<^verbatim>\<open>make([]byte, n)\<close> succeeds (the limit of the runtime, or less when memory
  is short); beyond it, as for a negative length, the program dies.
\<close>

record world =
  os_Stat :: "string \<Rightarrow> error + FileInfo"
  os_Open :: "string \<Rightarrow> error + osfile"
  remote :: "request \<Rightarrow> UploadConfigResp exchange"
  alloc_limit :: int

definition make_panics :: "int \<Rightarrow> int \<Rightarrow> bool" where
  "make_panics lim n \<longleftrightarrow> n < 0 \<or> lim < n"

section \<open>The helpers of \<^verbatim>\<open>src/unnamed/part_000\<close>\<close>

definition getFileInfo :: "world \<Rightarrow> string \<Rightarrow> event list \<times> (error + FileInfo)" where
  "getFileInfo w path = ([Stat path], os_Stat w path)"

text \<open>\<^verbatim>\<open>request\<close> returns the body, whatever the status code.\<close>

definition request :: "world \<Rightarrow> request \<Rightarrow> event list \<times> (error + UploadConfigResp option)" where
  "request w r =
     ([Send r],
      case remote w r of
        DoFails \<Rightarrow> Inl TransportError
      | ReadFails st \<Rightarrow> Inl ReadBodyError
      | Response st body \<Rightarrow> Inr body)"

text \<open>\<^verbatim>\<open>uploadRequest\<close> reads the body in verbose mode only.\<close>

definition uploadRequest :: "bool \<Rightarrow> world \<Rightarrow> request \<Rightarrow> event list \<times> error option" where
  "uploadRequest dbg w r =
     ([Send r],
      case remote w r of
        DoFails \<Rightarrow> Some TransportError
      | ReadFails st \<Rightarrow> (if dbg then Some ReadBodyError else None)
      | Response st body \<Rightarrow> None)"

definition getUploadConfig :: "world \<Rightarrow> FileInfo \<Rightarrow> event list \<times> (error + UploadConfigResp)" where
  "getUploadConfig w info =
     (case request w (GetKSCloudToken (info_Name info) (info_Size info)) of
        (t, Inl e) \<Rightarrow> (t, Inl e)
      | (t, Inr None) \<Rightarrow> (t, Inl UnmarshalError)
      | (t, Inr (Some config)) \<Rightarrow> (t, Inr config))"

definition finishUpload ::
  "bool \<Rightarrow> world \<Rightarrow> string \<Rightarrow> int \<Rightarrow> string \<Rightarrow> string \<Rightarrow> event list \<times> error option" where
  "finishUpload dbg w tok prt task filename =
     (case uploadRequest dbg w (CompleteReq prt tok) of
        (t1, Some e) \<Rightarrow> (t1 @ [Logf_error ''uploadRequest returns error'' e], Some e)
      | (t1, None) \<Rightarrow>
     (case request w (CreateVideoReq task filename) of
        (t2, Inl e) \<Rightarrow> (t1 @ t2, Some e)
      | (t2, Inr b2) \<Rightarrow>
     (case request w (UploadFinishReq task) of
        (t3, Inl e) \<Rightarrow> (t1 @ t2 @ t3, Some e)
      | (t3, Inr b3) \<Rightarrow> (t1 @ t2 @ t3, None))))"

section \<open>The worker pool of \<^verbatim>\<open>src/unnamed/part_000\<close>\<close>

text \<open>
  The body of the loop of \<^verbatim>\<open>uploader\<close>, from the answer to the POST on: every failure
  starts a goroutine that is to send \<^verbatim>\<open>item\<close> on the channel again (\<open>Retried\<close>); only an
  answer with \<^verbatim>\<open>Result == 1\<close> and \<^verbatim>\<open>Size == len(item.content)\<close> reaches \<^verbatim>\<open>bar.Add\<close>
  and \<^verbatim>\<open>wg.Done\<close> (\<open>Acknowledged\<close>).
\<close>

datatype verdict = Acknowledged | Retried

definition uploader :: "UploadPart \<Rightarrow> UploadPartResult exchange \<Rightarrow> verdict" where
  "uploader item x =
     (case x of
        DoFails \<Rightarrow> Retried
      | ReadFails st \<Rightarrow> Retried
      | Response st None \<Rightarrow> Retried
      | Response st (Some result) \<Rightarrow>
          if PartResult result \<noteq> 1 \<or> Size result \<noteq> int (length (content item))
          then Retried else Acknowledged)"

text \<open>The request that \<^verbatim>\<open>uploader\<close> builds for an item.\<close>

definition postFragment :: "string \<Rightarrow> int \<Rightarrow> int \<Rightarrow> UploadPart \<Rightarrow> request" where
  "postFragment tok partSize fileSize item =
     (let start = count item * partSize
      in FragmentReq tok (count item) (content item)
           start (start + int (length (content item)) - 1) fileSize)"

text \<open>
  One file's upload between \<^verbatim>\<open>os.Open\<close> and \<^verbatim>\<open>wg.Wait()\<close>. The main goroutine is in
  its read loop (\<open>InLoop\<close>), blocked in the send of a part on the unbuffered channel
  (\<open>Sending\<close>), at \<^verbatim>\<open>wg.Wait()\<close> (\<open>AtWait\<close>), or the program has panicked.

  Every call of \<^verbatim>\<open>uploader\<close> has its own loop variable \<^verbatim>\<open>item\<close>. A worker is at the receive
  of \<^verbatim>\<open>for item := range *ch\<close>, its variable holding what it received last (\<open>Waiting\<close>,
  with \<open>None\<close> before the first receive), or it has received a part and waits for the
  answer to its POST (\<open>Uploading\<close>).

  After a failed upload the worker starts \<^verbatim>\<open>go func() { *ch <- item }()\<close> and goes on
  with \<^verbatim>\<open>continue\<close>. The goroutine has not yet read \<^verbatim>\<open>item\<close>, the variable of the worker
  with the given index (\<open>Spawned\<close>), or it has read it and is blocked in the send of
  that part (\<open>Offering\<close>).
\<close>

datatype mainst = InLoop | Sending UploadPart | AtWait | Panic

datatype wstate = Waiting "UploadPart option" | Uploading UploadPart

datatype retry = Spawned nat | Offering UploadPart

record session =
  osf :: osfile
  part :: int
  mainst :: mainst
  workers :: "wstate list"
  retrying :: "retry list"
  wg :: int
  bar :: int
  evs :: "event list"

text \<open>The value of the loop variable of a worker.\<close>

fun item_of :: "wstate \<Rightarrow> UploadPart option" where
  "item_of (Waiting v) = v"
| "item_of (Uploading p) = Some p"

text \<open>The state after the workers are started (\<^verbatim>\<open>go uploader(...)\<close>, \<^verbatim>\<open>Parallel\<close> times)
  and before the read loop.\<close>

definition start :: "UploadConfigResp \<Rightarrow> osfile \<Rightarrow> session" where
  "start config f =
     \<lparr>osf = f, part = - 1, mainst = InLoop,
      workers = replicate (nat (Parallel (Config config))) (Waiting None),
      retrying = [], wg = 0, bar = 0, evs = []\<rparr>"

text \<open>One iteration of the read loop of \<^verbatim>\<open>main\<close>, up to the send on the channel; \<open>lim\<close>
  is the allocation limit.\<close>

definition read_step :: "int \<Rightarrow> UploadConfigResp \<Rightarrow> session \<Rightarrow> session" where
  "read_step lim config s =
     (let p = part s + 1 in
      if make_panics lim (PartSize (Config config) - 1) then s\<lparr>part := p, mainst := Panic\<rparr>
      else
        (case file_Read (osf s) (make_bytes (PartSize (Config config) - 1)) of
           (nr, buf, err, f) \<Rightarrow>
             let s1 = s\<lparr>part := p, osf := f,
                        evs := evs s @ [FileRead (PartSize (Config config) - 1)]\<rparr> in
             if nr \<le> 0 \<or> err \<noteq> None then s1\<lparr>mainst := AtWait\<rparr>
             else if 0 < nr then
               (let item = \<lparr>content = take (nat nr) buf, count = p\<rparr>
                in s1\<lparr>wg := wg s + 1, mainst := Sending item, evs := evs s1 @ [Enq item]\<rparr>)
             else s1))"

text \<open>
  The scheduler and the remote service choose the next action:
  \<^item> \<open>MainRead\<close>: the main goroutine runs an iteration of its loop;
  \<^item> \<open>Receive k src\<close>: the worker \<open>k\<close>, at its receive, gets the part that the main
    goroutine offers or the part that the retry goroutine \<open>i\<close> offers, assigns it to its
    variable and issues its POST;
  \<^item> \<open>Evaluate i\<close>: the retry goroutine \<open>i\<close> reads the variable \<^verbatim>\<open>item\<close> of its worker and
    blocks in the send of that part;
  \<^item> \<open>Answer k x\<close>: the answer \<open>x\<close> to the POST of the worker \<open>k\<close> arrives and the worker
    finishes the body of its loop.
  An action that cannot happen in the state gives \<open>None\<close>. A retry goroutine exists only
  for a worker that has received a part, so the variable it reads is never empty.
\<close>

datatype source = FromMain | FromRetry nat

datatype act =
    MainRead
  | Receive nat source
  | Evaluate nat
  | Answer nat "UploadPartResult exchange"

definition recv_item ::
  "UploadConfigResp \<Rightarrow> FileInfo \<Rightarrow> nat \<Rightarrow> UploadPart \<Rightarrow> session \<Rightarrow> session" where
  "recv_item config info k item s =
     s\<lparr>workers := (workers s)[k := Uploading item],
       evs := evs s @ [Send (postFragment (Token config) (PartSize (Config config) - 1)
                               (info_Size info) item)]\<rparr>"

definition reply_step ::
  "nat \<Rightarrow> UploadPart \<Rightarrow> UploadPartResult exchange \<Rightarrow> session \<Rightarrow> session" where
  "reply_step k item x s =
     (let s1 = s\<lparr>workers := (workers s)[k := Waiting (Some item)]\<rparr>
      in case uploader item x of
           Retried \<Rightarrow> s1\<lparr>retrying := retrying s @ [Spawned k]\<rparr>
         | Acknowledged \<Rightarrow>
             if wg s - 1 < 0
             then s1\<lparr>bar := bar s + int (length (content item)), mainst := Panic\<rparr>
             else s1\<lparr>bar := bar s + int (length (content item)), wg := wg s - 1,
                     evs := evs s @ [Ack item]\<rparr>)"

definition step ::
  "int \<Rightarrow> UploadConfigResp \<Rightarrow> FileInfo \<Rightarrow> act \<Rightarrow> session \<Rightarrow> session option" where
  "step lim config info a s =
     (if mainst s = Panic then None
      else case a of
        MainRead \<Rightarrow> if mainst s = InLoop then Some (read_step lim config s) else None
      | Receive k src \<Rightarrow>
          if k < length (workers s) then
            (case workers s ! k of
               Uploading p \<Rightarrow> None
             | Waiting v \<Rightarrow>
                 (case src of
                    FromMain \<Rightarrow>
                      (case mainst s of
                         Sending item \<Rightarrow>
                           Some (recv_item config info k item (s\<lparr>mainst := InLoop\<rparr>))
                       | _ \<Rightarrow> None)
                  | FromRetry i \<Rightarrow>
                      if i < length (retrying s) then
                        (case retrying s ! i of
                           Offering item \<Rightarrow>
                             Some (recv_item config info k item
                               (s\<lparr>retrying := take i (retrying s) @ drop (Suc i) (retrying s)\<rparr>))
                         | Spawned j \<Rightarrow> None)
                      else None))
          else None
      | Evaluate i \<Rightarrow>
          if i < length (retrying s) then
            (case retrying s ! i of
               Offering p \<Rightarrow> None
             | Spawned k \<Rightarrow>
                 if k < length (workers s) then
                   (case item_of (workers s ! k) of
                      None \<Rightarrow> None
                    | Some item \<Rightarrow>
                        Some (s\<lparr>retrying := (retrying s)[i := Offering item],
                                evs := evs s @ [Requeue item]\<rparr>))
                 else None)
          else None
      | Answer k x \<Rightarrow>
          if k < length (workers s) then
            (case workers s ! k of
               Uploading item \<Rightarrow> Some (reply_step k item x s)
             | Waiting v \<Rightarrow> None)
          else None)"

fun run ::
  "int \<Rightarrow> UploadConfigResp \<Rightarrow> FileInfo \<Rightarrow> act list \<Rightarrow> session \<Rightarrow> session option" where
  "run lim config info [] s = Some s"
| "run lim config info (a # as) s =
     (case step lim config info a s of
        None \<Rightarrow> None
      | Some s' \<Rightarrow> run lim config info as s')"

section \<open>\<^verbatim>\<open>main\<close> of \<^verbatim>\<open>src/unnamed/part_000\<close>\<close>

text \<open>
  The body of the loop over the files, for the file \<open>v\<close> and the schedule \<open>sch\<close> of its
  session. The result is \<open>None\<close> when the schedule is not a complete run: an action of it
  cannot happen, or it ends before \<^verbatim>\<open>wg.Wait()\<close> can return. Otherwise it is the events
  of the file and how the file ended; after \<open>Died\<close> (a panic) the program is gone, after
  \<open>Done\<close> and \<open>Failed\<close> the loop goes on with the next file.
\<close>

datatype stage = AtStat | AtNegotiate | AtResume | AtOpen | AtFinalize

datatype status = Done | Failed stage | Died

definition main_body ::
  "flags \<Rightarrow> world \<Rightarrow> string \<Rightarrow> act list \<Rightarrow> (event list \<times> status) option" where
  "main_body fl w v sch =
     (let t0 = [Println (''Local: '' @ v)] in
      case getFileInfo w v of
        (t1, Inl e) \<Rightarrow>
          Some (t0 @ t1 @ [Printf_error ''getFileInfo returns error'' e], Failed AtStat)
      | (t1, Inr info) \<Rightarrow>
     (case getUploadConfig w info of
        (t2, Inl e) \<Rightarrow>
          Some (t0 @ t1 @ t2 @ [Printf_error ''getUploadConfig returns error'' e],
                Failed AtNegotiate)
      | (t2, Inr config) \<Rightarrow>
     (case uploadRequest (debug fl) w (ResumeReq (Token config)) of
        (t3, Some e) \<Rightarrow>
          Some (t0 @ t1 @ t2 @ t3 @ [Printf_error ''uploadRequest returns error'' e],
                Failed AtResume)
      | (t3, None) \<Rightarrow>
     (let t4 = t0 @ t1 @ t2 @ t3 @ [BarStart (info_Size info), Open v] in
      case os_Open w v of
        Inl e \<Rightarrow> Some (t4 @ [Printf_error ''openFile returns error'' e], Failed AtOpen)
      | Inr file \<Rightarrow>
     (let t5 = t4 @ replicate (nat (Parallel (Config config))) GoUploader in
      case run (alloc_limit w) config info sch (start config file) of
        None \<Rightarrow> None
      | Some s \<Rightarrow>
          if mainst s = Panic then Some (t5 @ evs s, Died)
          else if mainst s = AtWait \<and> wg s = 0 then
            (case finishUpload (debug fl) w (Token config) (part s) (TaskID config) v of
               (t6, Some e) \<Rightarrow>
                 Some (t5 @ evs s @ [WgWait, ChanClose, FileClose, BarFinish] @ t6 @
                       [Printf_error ''finishUpload returns error'' e], Failed AtFinalize)
             | (t6, None) \<Rightarrow>
                 Some (t5 @ evs s @ [WgWait, ChanClose, FileClose, BarFinish] @ t6, Done))
          else None)))))"

text \<open>The loop over the files; \<open>schs\<close> holds one schedule for each file.\<close>

fun files_loop :: "flags \<Rightarrow> world \<Rightarrow> string list \<Rightarrow> act list list \<Rightarrow> event list option" where
  "files_loop fl w [] schs = Some []"
| "files_loop fl w (v # vs) schs =
     (case main_body fl w v (case schs of [] \<Rightarrow> [] | sch # _ \<Rightarrow> sch) of
        None \<Rightarrow> None
      | Some (t, Died) \<Rightarrow> Some t
      | Some (t, _) \<Rightarrow> map_option ((@) t) (files_loop fl w vs (tl schs)))"

definition main :: "flags \<Rightarrow> world \<Rightarrow> string list \<Rightarrow> act list list \<Rightarrow> event list option" where
  "main fl w files schs =
     (if token fl = [] \<or> uid fl = [] then Some [Println ''token or uid is missing'', Usage]
      else files_loop fl w files schs)"

section \<open>The program of \<^verbatim>\<open>src/main.go\<close>\<close>

text \<open>
  \<^verbatim>\<open>getFileInfo\<close>, \<^verbatim>\<open>request\<close> and \<^verbatim>\<open>getUploadConfig\<close> of \<^verbatim>\<open>src/main.go\<close> are as above,
  but for one case that is not modelled: \<^verbatim>\<open>src/main.go\<close> decodes with
  \<^verbatim>\<open>json.Unmarshal(body, &config)\<close>, so that a body that is the JSON value \<^verbatim>\<open>null\<close>
  leaves a nil \<^verbatim>\<open>config\<close> and \<^verbatim>\<open>main\<close> dies when it reads it.
  It has no \<^verbatim>\<open>uploadRequest\<close>; its \<^verbatim>\<open>finishUpload\<close> posts to \<^verbatim>\<open>UploadFinish\<close>, then to
  \<^verbatim>\<open>CreateVideo\<close>.
\<close>

definition finishUpload_mg :: "world \<Rightarrow> string \<Rightarrow> string \<Rightarrow> event list \<times> error option" where
  "finishUpload_mg w task filename =
     (case request w (UploadFinishReq task) of
        (t1, Inl e) \<Rightarrow> (t1, Some e)
      | (t1, Inr b1) \<Rightarrow>
     (case request w (CreateVideoReq task filename) of
        (t2, Inl e) \<Rightarrow> (t1 @ t2, Some e)
      | (t2, Inr b2) \<Rightarrow> (t1 @ t2, None)))"

text \<open>
  The body of the loop of \<^verbatim>\<open>uploader\<close> in \<^verbatim>\<open>src/main.go\<close>, from the answer to the POST on:
  the item is sent again when \<^verbatim>\<open>client.Post\<close> fails and, in verbose mode, when the body
  cannot be read; every other answer reaches \<^verbatim>\<open>bar.Add\<close> and \<^verbatim>\<open>wg.Done\<close>.
\<close>

definition uploader_mg :: "bool \<Rightarrow> UploadPartResult exchange \<Rightarrow> verdict" where
  "uploader_mg dbg x =
     (case x of
        DoFails \<Rightarrow> Retried
      | ReadFails st \<Rightarrow> (if dbg then Retried else Acknowledged)
      | Response st body \<Rightarrow> Acknowledged)"

text \<open>
  In \<^verbatim>\<open>src/main.go\<close> the buffer is allocated once, before the loop, and every part holds
  the slice \<^verbatim>\<open>buf\<close> itself: the content of all parts is the current content of the one
  buffer \<open>buf_mg\<close>, so a part is given by its \<^verbatim>\<open>count\<close>. A worker copies the content when
  it has received the part (\<^verbatim>\<open>data.Write(item.content)\<close>), which is taken to happen with
  the receive; in the source nothing orders this copy and the next \<^verbatim>\<open>Read\<close> of the main
  goroutine into the same buffer, so the model takes the order that is best for the
  content. A worker whose upload failed sends the item itself and is blocked until
  another worker receives it (\<open>resending_mg\<close>). The actions of a schedule are those of
  \<^verbatim>\<open>src/unnamed/part_000\<close> without the names of the workers: \<open>Read\<close>, \<open>Recv\<close> by an
  idle worker, and \<open>Reply\<close> to the worker at the given place among the busy ones.
\<close>

datatype mainst_mg = InLoop_mg | Sending_mg int | AtWait_mg | Panic_mg

datatype action = Read | Recv source | Reply nat "UploadPartResult exchange"

record session_mg =
  osf_mg :: osfile
  buf_mg :: bytes
  part_mg :: int
  mainst_mg :: mainst_mg
  resending_mg :: "int list"
  working_mg :: "int list"
  wg_mg :: int
  bar_mg :: int
  evs_mg :: "event list"

definition start_mg :: "int \<Rightarrow> UploadConfigResp \<Rightarrow> osfile \<Rightarrow> session_mg" where
  "start_mg lim config f =
     \<lparr>osf_mg = f, buf_mg = make_bytes (PartSize (Config config)), part_mg = 0,
      mainst_mg = (if make_panics lim (PartSize (Config config)) then Panic_mg else InLoop_mg),
      resending_mg = [], working_mg = [], wg_mg = 0, bar_mg = 0, evs_mg = []\<rparr>"

definition read_step_mg :: "session_mg \<Rightarrow> session_mg" where
  "read_step_mg s =
     (let p = part_mg s + 1 in
      case file_Read (osf_mg s) (buf_mg s) of
        (nr, buf, err, f) \<Rightarrow>
          let s1 = s\<lparr>part_mg := p, osf_mg := f, buf_mg := buf,
                     evs_mg := evs_mg s @ [FileRead (int (length (buf_mg s)))]\<rparr> in
          if nr \<le> 0 \<or> err \<noteq> None then s1\<lparr>mainst_mg := AtWait_mg\<rparr>
          else if 0 < nr then
            s1\<lparr>wg_mg := wg_mg s + 1, mainst_mg := Sending_mg p,
               evs_mg := evs_mg s1 @ [Enq \<lparr>content = buf, count = p\<rparr>]\<rparr>
          else s1)"

definition recv_item_mg :: "UploadConfigResp \<Rightarrow> int \<Rightarrow> session_mg \<Rightarrow> session_mg" where
  "recv_item_mg config k s =
     s\<lparr>working_mg := working_mg s @ [k],
       evs_mg := evs_mg s @ [Send (FragmentReq_mg k (Token config) (buf_mg s))]\<rparr>"

definition reply_step_mg :: "bool \<Rightarrow> nat \<Rightarrow> UploadPartResult exchange \<Rightarrow> session_mg \<Rightarrow> session_mg" where
  "reply_step_mg dbg j x s =
     (let k = working_mg s ! j;
          item = \<lparr>content = buf_mg s, count = k\<rparr>;
          s1 = s\<lparr>working_mg := take j (working_mg s) @ drop (Suc j) (working_mg s)\<rparr>
      in case uploader_mg dbg x of
           Retried \<Rightarrow> s1\<lparr>resending_mg := resending_mg s @ [k],
                         evs_mg := evs_mg s @ [Requeue item]\<rparr>
         | Acknowledged \<Rightarrow>
             if wg_mg s - 1 < 0
             then s1\<lparr>bar_mg := bar_mg s + int (length (buf_mg s)), mainst_mg := Panic_mg\<rparr>
             else s1\<lparr>bar_mg := bar_mg s + int (length (buf_mg s)), wg_mg := wg_mg s - 1,
                     evs_mg := evs_mg s @ [Ack item]\<rparr>)"

definition step_mg :: "UploadConfigResp \<Rightarrow> bool \<Rightarrow> action \<Rightarrow> session_mg \<Rightarrow> session_mg option" where
  "step_mg config dbg a s =
     (if mainst_mg s = Panic_mg then None
      else case a of
        Read \<Rightarrow> if mainst_mg s = InLoop_mg then Some (read_step_mg s) else None
      | Recv src \<Rightarrow>
          if int (length (working_mg s) + length (resending_mg s)) < Parallel (Config config) then
            (case src of
               FromMain \<Rightarrow>
                 (case mainst_mg s of
                    Sending_mg k \<Rightarrow> Some (recv_item_mg config k (s\<lparr>mainst_mg := InLoop_mg\<rparr>))
                  | _ \<Rightarrow> None)
             | FromRetry i \<Rightarrow>
                 if i < length (resending_mg s)
                 then Some (recv_item_mg config (resending_mg s ! i)
                        (s\<lparr>resending_mg := take i (resending_mg s) @ drop (Suc i) (resending_mg s)\<rparr>))
                 else None)
          else None
      | Reply j x \<Rightarrow>
          if j < length (working_mg s) then Some (reply_step_mg dbg j x s) else None)"

fun run_mg :: "UploadConfigResp \<Rightarrow> bool \<Rightarrow> action list \<Rightarrow> session_mg \<Rightarrow> session_mg option" where
  "run_mg config dbg [] s = Some s"
| "run_mg config dbg (a # as) s =
     (case step_mg config dbg a s of None \<Rightarrow> None | Some s' \<Rightarrow> run_mg config dbg as s')"

definition main_body_mg ::
  "flags \<Rightarrow> world \<Rightarrow> string \<Rightarrow> action list \<Rightarrow> (event list \<times> status) option" where
  "main_body_mg fl w v sch =
     (let t0 = [Println (''Local: '' @ v)] in
      case getFileInfo w v of
        (t1, Inl e) \<Rightarrow>
          Some (t0 @ t1 @ [Printf_error ''getFileInfo returns error'' e], Failed AtStat)
      | (t1, Inr info) \<Rightarrow>
     (case getUploadConfig w info of
        (t2, Inl e) \<Rightarrow>
          Some (t0 @ t1 @ t2 @ [Printf_error ''getUploadConfig returns error'' e],
                Failed AtNegotiate)
      | (t2, Inr config) \<Rightarrow>
     (let t4 = t0 @ t1 @ t2 @ [BarStart (info_Size info), Open v] in
      case os_Open w v of
        Inl e \<Rightarrow> Some (t4 @ [Printf_error ''openFile returns error'' e], Failed AtOpen)
      | Inr file \<Rightarrow>
     (let t5 = t4 @ replicate (nat (Parallel (Config config))) GoUploader in
      case run_mg config (debug fl) sch (start_mg (alloc_limit w) config file) of
        None \<Rightarrow> None
      | Some s \<Rightarrow>
          if mainst_mg s = Panic_mg then Some (t5 @ evs_mg s, Died)
          else if mainst_mg s = AtWait_mg \<and> wg_mg s = 0 then
            (case finishUpload_mg w (TaskID config) v of
               (t6, Some e) \<Rightarrow>
                 Some (t5 @ evs_mg s @ [WgWait, ChanClose, FileClose, BarFinish] @ t6 @
                       [Printf_error ''finishUpload returns error'' e], Failed AtFinalize)
             | (t6, None) \<Rightarrow>
                 Some (t5 @ evs_mg s @ [WgWait, ChanClose, FileClose, BarFinish] @ t6, Done))
          else None))))"

fun files_loop_mg :: "flags \<Rightarrow> world \<Rightarrow> string list \<Rightarrow> action list list \<Rightarrow> event list option" where
  "files_loop_mg fl w [] schs = Some []"
| "files_loop_mg fl w (v # vs) schs =
     (case main_body_mg fl w v (case schs of [] \<Rightarrow> [] | sch # _ \<Rightarrow> sch) of
        None \<Rightarrow> None
      | Some (t, Died) \<Rightarrow> Some t
      | Some (t, _) \<Rightarrow> map_option ((@) t) (files_loop_mg fl w vs (tl schs)))"

definition main_mg :: "flags \<Rightarrow> world \<Rightarrow> string list \<Rightarrow> action list list \<Rightarrow> event list option" where
  "main_mg fl w files schs =
     (if token fl = [] \<or> uid fl = [] then Some [Println ''token or uid is missing'', Usage]
      else files_loop_mg fl w files schs)"

section \<open>Notions of the specification\<close>

text \<open>The parts enqueued and the parts acknowledged in a trace.\<close>

fun enq_of :: "event \<Rightarrow> UploadPart list" where
  "enq_of (Enq p) = [p]"
| "enq_of _ = []"

fun ack_of :: "event \<Rightarrow> UploadPart list" where
  "ack_of (Ack p) = [p]"
| "ack_of _ = []"

fun send_of :: "event \<Rightarrow> request list" where
  "send_of (Send r) = [r]"
| "send_of _ = []"

definition enqs :: "event list \<Rightarrow> UploadPart list" where
  "enqs t = concat (map enq_of t)"

definition acks :: "event list \<Rightarrow> UploadPart list" where
  "acks t = concat (map ack_of t)"

definition sends :: "event list \<Rightarrow> request list" where
  "sends t = concat (map send_of t)"

text \<open>The requests of the finalize handshake.\<close>

fun is_finalize :: "request \<Rightarrow> bool" where
  "is_finalize (CompleteReq n tok) = True"
| "is_finalize (CreateVideoReq task name) = True"
| "is_finalize (UploadFinishReq task) = True"
| "is_finalize _ = False"

definition finals :: "event list \<Rightarrow> request list" where
  "finals t = filter is_finalize (sends t)"

text \<open>How often the index \<open>i\<close> was acknowledged in a trace.\<close>

definition ack_count :: "event list \<Rightarrow> int \<Rightarrow> nat" where
  "ack_count t i = count_list (map count (acks t)) i"

text \<open>
  The split of the specification: fragments of \<open>n\<close> bytes in file order, the last one
  with the bytes that remain, numbered from \<open>i\<close> on.
\<close>

fun fragments :: "nat \<Rightarrow> bytes \<Rightarrow> bytes list" where
  "fragments n xs = (if n = 0 \<or> xs = [] then [] else take n xs # fragments n (drop n xs))"

fun number :: "int \<Rightarrow> bytes list \<Rightarrow> UploadPart list" where
  "number i [] = []"
| "number i (c # cs) = \<lparr>content = c, count = i\<rparr> # number (i + 1) cs"

text \<open>The size of the read buffer of \<^verbatim>\<open>src/unnamed/part_000\<close>:
  \<^verbatim>\<open>config.Config.PartSize-1\<close>.\<close>

definition bufsize :: "UploadConfigResp \<Rightarrow> nat" where
  "bufsize c = nat (PartSize (Config c) - 1)"

text \<open>
  The acknowledgments that are still owed: one for the part that the main goroutine
  offers, one for every worker that waits for its answer, one for every retry goroutine.
\<close>

fun is_uploading :: "wstate \<Rightarrow> bool" where
  "is_uploading (Uploading p) = True"
| "is_uploading (Waiting v) = False"

definition owed :: "session \<Rightarrow> nat" where
  "owed s = (case mainst s of Sending p \<Rightarrow> 1 | _ \<Rightarrow> 0)
            + length (filter is_uploading (workers s)) + length (retrying s)"

text \<open>The parts that occur in a state: with the main goroutine, in the variables of the
  workers, with the retry goroutines.\<close>

fun offered :: "retry \<Rightarrow> UploadPart option" where
  "offered (Offering p) = Some p"
| "offered (Spawned k) = None"

definition held :: "session \<Rightarrow> UploadPart set" where
  "held s = (case mainst s of Sending p \<Rightarrow> {p} | _ \<Rightarrow> {})
            \<union> {p. Some p \<in> item_of ` set (workers s)}
            \<union> {p. Some p \<in> offered ` set (retrying s)}"

text \<open>The invariant of a session on the file \<open>f0\<close>.\<close>

definition session_inv :: "UploadConfigResp \<Rightarrow> osfile \<Rightarrow> session \<Rightarrow> bool" where
  "session_inv c f0 s \<longleftrightarrow>
     (mainst s \<noteq> Panic \<longrightarrow>
        wg s = int (owed s)
      \<and> length (enqs (evs s)) = owed s + length (acks (evs s))
      \<and> enqs (evs s) @
          number (int (length (enqs (evs s)))) (fragments (bufsize c) (unread (osf s)))
          = number 0 (fragments (bufsize c) (unread f0))
      \<and> part s = int (length (enqs (evs s))) - (if mainst s = AtWait then 0 else 1)
      \<and> bar s = int (length (concat (map content (acks (evs s)))))
      \<and> (mainst s = AtWait \<longrightarrow> fragments (bufsize c) (unread (osf s)) = [])
      \<and> ending (osf s) = ending f0
      \<and> held s \<subseteq> set (enqs (evs s))
      \<and> set (acks (evs s)) \<subseteq> set (enqs (evs s)))"

text \<open>The events of \<^verbatim>\<open>main\<close> for a file before its session (up to the start of the
  workers) and between \<^verbatim>\<open>wg.Wait()\<close> and \<^verbatim>\<open>finishUpload\<close>.\<close>

definition prelude :: "string \<Rightarrow> FileInfo \<Rightarrow> UploadConfigResp \<Rightarrow> event list" where
  "prelude v info c =
     [Println (''Local: '' @ v), Stat v,
      Send (GetKSCloudToken (info_Name info) (info_Size info)),
      Send (ResumeReq (Token c)), BarStart (info_Size info), Open v]
     @ replicate (nat (Parallel (Config c))) GoUploader"

definition epilogue :: "event list" where
  "epilogue = [WgWait, ChanClose, FileClose, BarFinish]"

text \<open>The requests to \<^verbatim>\<open>UploadComplete\<close>, the first step of the handshake.\<close>

fun is_complete :: "request \<Rightarrow> bool" where
  "is_complete (CompleteReq n tok) = True"
| "is_complete _ = False"

text \<open>The bytes reported to the progress bar in a trace.\<close>

definition progress :: "event list \<Rightarrow> int" where
  "progress t = sum_list (map (\<lambda>p. int (length (content p))) (acks t))"

text \<open>The session \<open>s\<close> on a file with the ending \<open>e\<close>.\<close>

definition with_ending :: "ending \<Rightarrow> session \<Rightarrow> session" where
  "with_ending e s = s\<lparr>osf := (osf s)\<lparr>ending := e\<rparr>\<rparr>"

text \<open>A world whose answers to the negotiation differ from those of \<open>w\<close> in the retry
  hints only: \<open>h\<close> gives the hints for each request.\<close>

definition set_hints :: "int \<times> int \<Rightarrow> UploadConfigResp \<Rightarrow> UploadConfigResp" where
  "set_hints h c = c\<lparr>Config := (Config c)\<lparr>RetryCount := fst h, RetryDurationSeconds := snd h\<rparr>\<rparr>"

definition hinted :: "(request \<Rightarrow> int \<times> int) \<Rightarrow> world \<Rightarrow> world" where
  "hinted h w =
     w\<lparr>remote := (\<lambda>r. case remote w r of
                         Response st (Some c) \<Rightarrow> Response st (Some (set_hints (h r) c))
                       | x \<Rightarrow> x)\<rparr>"

text \<open>The world \<open>w\<close> with every file ending in a clean end-of-file.\<close>

definition eof_world :: "world \<Rightarrow> world" where
  "eof_world w =
     w\<lparr>os_Open := (\<lambda>p. case os_Open w p of Inl e \<Rightarrow> Inl e
                                             | Inr f \<Rightarrow> Inr (f\<lparr>ending := AtEOF\<rparr>))\<rparr>"

text \<open>
  Concrete surroundings for the examples: every path is a file with the bytes \<open>bs\<close>, the
  service answers the negotiation \<open>x\<close> and every other request with an empty answer of
  status 200, and buffers of up to 1 GiB can be allocated.
\<close>

definition config_of :: "int \<Rightarrow> int \<Rightarrow> UploadConfigResp" where
  "config_of ps par =
     \<lparr>Result = 0, Host = ''host'',
      Config = \<lparr>PartSize = ps, Parallel = par, RetryCount = 0, RetryDurationSeconds = 0\<rparr>,
      TaskID = ''task'', Token = ''tok''\<rparr>"

definition world_of :: "bytes \<Rightarrow> ending \<Rightarrow> UploadConfigResp exchange \<Rightarrow> world" where
  "world_of bs e x =
     \<lparr>os_Stat = (\<lambda>p. Inr \<lparr>info_Name = p, info_Size = int (length bs)\<rparr>),
      os_Open = (\<lambda>p. Inr \<lparr>unread = bs, ending = e\<rparr>),
      remote = (\<lambda>r. case r of GetKSCloudToken n sz \<Rightarrow> x | _ \<Rightarrow> Response 200 None),
      alloc_limit = 1073741824\<rparr>"

definition ok_reply :: "int \<Rightarrow> UploadPartResult exchange" where
  "ok_reply n = Response 200 (Some \<lparr>PartResult = 1, Checksum = [], Size = n\<rparr>)"

definition creds :: flags where
  "creds = \<lparr>token = ''t'', uid = ''u'', debug = False\<rparr>"



section \<open>Properties\<close>

subsection \<open>Evaluation of the examples\<close>

lemmas eval_defs =
  main_body_def getFileInfo_def getUploadConfig_def request_def uploadRequest_def
  finishUpload_def world_of_def config_of_def creds_def ok_reply_def step_def read_step_def
  recv_item_def reply_step_def uploader_def postFragment_def start_def file_Read_def
  make_bytes_def make_panics_def Let_def

lemmas eval_mg_defs =
  main_body_mg_def getFileInfo_def getUploadConfig_def request_def finishUpload_mg_def
  world_of_def config_of_def creds_def ok_reply_def step_mg_def read_step_mg_def
  recv_item_mg_def reply_step_mg_def uploader_mg_def start_mg_def file_Read_def
  make_bytes_def make_panics_def Let_def

subsection \<open>The credential check\<close>

text \<open>
  C10. With an empty \<^verbatim>\<open>token\<close> or \<^verbatim>\<open>uid\<close> flag the program prints the message and the
  usage text and returns: whatever the files and the surroundings, these two are its only
  events, so no file is stat'ed or opened and no request is sent.
\<close>

theorem missing_credentials_return:
  "token fl = [] \<or> uid fl = [] \<Longrightarrow>
     main fl w files schs = Some [Println ''token or uid is missing'', Usage]"
  by (simp add: main_def)

theorem missing_credentials_return_witness:
  "(token \<lparr>token = [], uid = ''u'', debug = True\<rparr> = [] \<or> uid \<lparr>token = [], uid = ''u'', debug = True\<rparr> = [])
   \<and> main \<lparr>token = [], uid = ''u'', debug = True\<rparr>
         (world_of [1, 2, 3] AtEOF (Response 200 (Some (config_of 3 2))))
         [''a.mp4'', ''b.mp4''] [[MainRead], [MainRead]]
       = Some [Println ''token or uid is missing'', Usage]"
  using missing_credentials_return
    [of "\<lparr>token = [], uid = ''u'', debug = True\<rparr>"
        "world_of [1, 2, 3] AtEOF (Response 200 (Some (config_of 3 2)))"
        "[''a.mp4'', ''b.mp4'']" "[[MainRead], [MainRead]]"]
  by simp

text \<open>The same holds for \<^verbatim>\<open>main\<close> of \<^verbatim>\<open>src/main.go\<close>.\<close>

lemma missing_credentials_return_mg:
  "token fl = [] \<or> uid fl = [] \<Longrightarrow>
     main_mg fl w files schs = Some [Println ''token or uid is missing'', Usage]"
  by (simp add: main_mg_def)

subsection \<open>The retry hints\<close>

lemma set_hints_fields:
  "PartSize (Config (set_hints h c)) = PartSize (Config c)"
  "Parallel (Config (set_hints h c)) = Parallel (Config c)"
  "Token (set_hints h c) = Token c"
  "TaskID (set_hints h c) = TaskID c"
  by (simp_all add: set_hints_def)

lemma uploadRequest_hinted: "uploadRequest dbg (hinted h w) r = uploadRequest dbg w r"
  by (simp add: uploadRequest_def hinted_def split: exchange.splits option.splits)

lemma finishUpload_hinted:
  "finishUpload dbg (hinted h w) tok p task v = finishUpload dbg w tok p task v"
  unfolding finishUpload_def uploadRequest_hinted
  by (simp add: request_def hinted_def split: exchange.splits option.splits)

lemma read_step_hints: "read_step lim (set_hints h c) = read_step lim c"
  unfolding read_step_def set_hints_fields by (rule refl)

lemma start_hints: "start (set_hints h c) = start c"
  unfolding start_def set_hints_fields by (rule refl)

lemma recv_item_hints: "recv_item (set_hints h c) = recv_item c"
  unfolding recv_item_def set_hints_fields by (rule refl)

lemma step_hints: "step lim (set_hints h c) info a s = step lim c info a s"
  unfolding step_def read_step_hints recv_item_hints set_hints_fields by (rule refl)

lemma run_hints: "run lim (set_hints h c) info sch s = run lim c info sch s"
  by (induction sch arbitrary: s) (simp_all add: step_hints split: option.splits)

lemma getUploadConfig_hinted:
  "getUploadConfig (hinted h w) info =
     (case getUploadConfig w info of
        (t, Inl e) \<Rightarrow> (t, Inl e)
      | (t, Inr c) \<Rightarrow>
          (t, Inr (set_hints (h (GetKSCloudToken (info_Name info) (info_Size info))) c)))"
  by (simp add: getUploadConfig_def request_def hinted_def split: exchange.splits option.splits)

lemma main_body_hinted: "main_body fl (hinted h w) v sch = main_body fl w v sch"
proof (cases "os_Stat w v")
  case (Inl e)
  then show ?thesis by (simp add: main_body_def getFileInfo_def hinted_def)
next
  case (Inr info)
  have o: "os_Open (hinted h w) = os_Open w" "os_Stat (hinted h w) = os_Stat w"
    "alloc_limit (hinted h w) = alloc_limit w"
    by (simp_all add: hinted_def)
  obtain t2 r2 where g: "getUploadConfig w info = (t2, r2)"
    by (cases "getUploadConfig w info")
  show ?thesis
  proof (cases r2)
    case (Inl e)
    then show ?thesis
      by (simp add: main_body_def getFileInfo_def o Inr getUploadConfig_hinted g)
  next
    case c: (Inr c)
    obtain t3 r3 where u: "uploadRequest (debug fl) w (ResumeReq (Token c)) = (t3, r3)"
      by (cases "uploadRequest (debug fl) w (ResumeReq (Token c))")
    show ?thesis
    proof (cases r3)
      case (Some e)
      then show ?thesis
        by (simp add: main_body_def getFileInfo_def o Inr getUploadConfig_hinted g c
            uploadRequest_hinted set_hints_fields u)
    next
      case None
      show ?thesis
      proof (cases "os_Open w v")
        case (Inl e)
        then show ?thesis
          by (simp add: main_body_def getFileInfo_def o Inr getUploadConfig_hinted g c
              uploadRequest_hinted set_hints_fields u None)
      next
        case f: (Inr f)
        show ?thesis
          by (simp add: main_body_def getFileInfo_def o Inr getUploadConfig_hinted g c
              uploadRequest_hinted set_hints_fields u None f run_hints start_hints
              finishUpload_hinted
              Let_def cong: option.case_cong if_cong prod.case_cong)
      qed
    qed
  qed
qed

lemma files_loop_hinted: "files_loop fl (hinted h w) vs schs = files_loop fl w vs schs"
  by (induction vs arbitrary: schs)
     (simp_all add: main_body_hinted split: option.splits prod.splits status.splits)

text \<open>
  C9. The fields \<^verbatim>\<open>RetryCount\<close> and \<^verbatim>\<open>RetryDurationSeconds\<close> of the negotiated
  configuration are never read: when the answers of the service are changed in these two
  fields only, in whatever way, every run of the program has the same events and the same
  outcome, for all files and all schedules; and every step of a session is the same.
\<close>

theorem retry_hints_ignored:
  "main fl (hinted h w) files schs = main fl w files schs
   \<and> step lim (set_hints (a, b) c) info act s = step lim c info act s"
  by (simp add: main_def files_loop_hinted step_hints)

theorem retry_hints_ignored_witness:
  "main creds (hinted (\<lambda>r. (7, 30)) (world_of [1, 2] AtEOF (Response 200 (Some (config_of 3 1)))))
     [''a''] [[MainRead, Receive 0 FromMain, Answer 0 (ok_reply 2), MainRead]]
   = main creds (world_of [1, 2] AtEOF (Response 200 (Some (config_of 3 1))))
     [''a''] [[MainRead, Receive 0 FromMain, Answer 0 (ok_reply 2), MainRead]]"
  using retry_hints_ignored
    [of creds "\<lambda>r. (7, 30)" "world_of [1, 2] AtEOF (Response 200 (Some (config_of 3 1)))"
        "[''a'']" "[[MainRead, Receive 0 FromMain, Answer 0 (ok_reply 2), MainRead]]"]
  by simp

subsection \<open>A failed negotiation\<close>

text \<open>
  C6, as amended. When the negotiation fails (\<^verbatim>\<open>client.Do\<close> fails, the body cannot be
  read, or the body is not the JSON of a configuration), the file is given up at this
  stage: after the request the only event is the message
  \<^verbatim>\<open>getUploadConfig returns error\<close>, so the file is not opened or read and no worker is
  started, and the loop goes on with the next file. The status code and the field
  \<^verbatim>\<open>result\<close> of a well-formed answer play no part.
\<close>

theorem negotiate_failure_skips_file:
  assumes "os_Stat w v = Inr info"
    and "remote w (GetKSCloudToken (info_Name info) (info_Size info)) = x"
    and "x = DoFails \<or> x = ReadFails st \<or> x = Response st None"
  shows "main_body fl w v sch =
           Some ([Println (''Local: '' @ v), Stat v,
                  Send (GetKSCloudToken (info_Name info) (info_Size info)),
                  Printf_error ''getUploadConfig returns error''
                    (case x of DoFails \<Rightarrow> TransportError | ReadFails k \<Rightarrow> ReadBodyError
                     | Response k b \<Rightarrow> UnmarshalError)],
                 Failed AtNegotiate)
       \<and> files_loop fl w (v # vs) schs =
           map_option
             ((@) [Println (''Local: '' @ v), Stat v,
                  Send (GetKSCloudToken (info_Name info) (info_Size info)),
                  Printf_error ''getUploadConfig returns error''
                    (case x of DoFails \<Rightarrow> TransportError | ReadFails k \<Rightarrow> ReadBodyError
                     | Response k b \<Rightarrow> UnmarshalError)])
             (files_loop fl w vs (tl schs))"
proof -
  have b: "main_body fl w v sch' =
           Some ([Println (''Local: '' @ v), Stat v,
                  Send (GetKSCloudToken (info_Name info) (info_Size info)),
                  Printf_error ''getUploadConfig returns error''
                    (case x of DoFails \<Rightarrow> TransportError | ReadFails k \<Rightarrow> ReadBodyError
                     | Response k b \<Rightarrow> UnmarshalError)],
                 Failed AtNegotiate)" for sch'
    using assms
    by (auto simp add: main_body_def getFileInfo_def getUploadConfig_def request_def)
  show ?thesis
    by (simp add: b)
qed

theorem negotiate_failure_skips_file_witness:
  "main_body creds (world_of [1, 2] AtEOF (Response 200 None)) ''a'' [MainRead] =
     Some ([Println ''Local: a'', Stat ''a'', Send (GetKSCloudToken ''a'' 2),
            Printf_error ''getUploadConfig returns error'' UnmarshalError],
           Failed AtNegotiate)
   \<and> files_loop creds (world_of [1, 2] AtEOF (Response 200 None)) [''a'', ''b'']
       [[MainRead], [MainRead]] =
     Some [Println ''Local: a'', Stat ''a'', Send (GetKSCloudToken ''a'' 2),
           Printf_error ''getUploadConfig returns error'' UnmarshalError,
           Println ''Local: b'', Stat ''b'', Send (GetKSCloudToken ''b'' 2),
           Printf_error ''getUploadConfig returns error'' UnmarshalError]"
proof -
  let ?w = "world_of [1, 2] AtEOF (Response 200 None)"
  have 1: "os_Stat ?w v = Inr \<lparr>info_Name = v, info_Size = 2\<rparr>" for v
    by (simp add: world_of_def)
  have 2: "remote ?w (GetKSCloudToken (info_Name \<lparr>info_Name = v, info_Size = 2\<rparr>)
             (info_Size \<lparr>info_Name = v, info_Size = 2\<rparr>)) = Response 200 None" for v
    by (simp add: world_of_def)
  have 3: "Response 200 None = DoFails \<or> Response 200 None = ReadFails 200
           \<or> Response 200 None = (Response 200 None :: UploadConfigResp exchange)"
    by simp
  note a = negotiate_failure_skips_file [OF 1 [of "''a''"] 2 [of "''a''"] 3,
      where fl = creds and sch = "[MainRead]" and vs = "[''b'']"
        and schs = "[[MainRead], [MainRead]]"]
  note b = negotiate_failure_skips_file [OF 1 [of "''b''"] 2 [of "''b''"] 3,
      where fl = creds and sch = "[MainRead]" and vs = "[]" and schs = "[[MainRead]]"]
  from a b show ?thesis by simp
qed

text \<open>
  The claim C6 as stated fails: an answer with status 500 and \<^verbatim>\<open>result = -1\<close> whose body
  is well formed is taken as a configuration; a worker is started, the file is read and
  uploaded.
\<close>

theorem negotiate_status_counterexample:
  "main_body creds
     (world_of [1, 2] AtEOF (Response 500 (Some ((config_of 3 1)\<lparr>Result := - 1\<rparr>))))
     ''a'' [MainRead, Receive 0 FromMain, Answer 0 (ok_reply 2), MainRead] =
   Some ([Println ''Local: a'', Stat ''a'', Send (GetKSCloudToken ''a'' 2),
          Send (ResumeReq ''tok''), BarStart 2, Open ''a'', GoUploader,
          FileRead 2, Enq \<lparr>content = [1, 2], count = 0\<rparr>,
          Send (FragmentReq ''tok'' 0 [1, 2] 0 1 2),
          Ack \<lparr>content = [1, 2], count = 0\<rparr>, FileRead 2, WgWait, ChanClose,
          FileClose, BarFinish, Send (CompleteReq 1 ''tok''),
          Send (CreateVideoReq ''task'' ''a''), Send (UploadFinishReq ''task'')],
         Done)"
  by (simp add: eval_defs)


subsection \<open>The invariant of a session\<close>

lemma enqs_simps [simp]:
  "enqs [] = []" "enqs (e # t) = enq_of e @ enqs t" "enqs (t @ u) = enqs t @ enqs u"
  by (simp_all add: enqs_def)

lemma acks_simps [simp]:
  "acks [] = []" "acks (e # t) = ack_of e @ acks t" "acks (t @ u) = acks t @ acks u"
  by (simp_all add: acks_def)

lemma sends_simps [simp]:
  "sends [] = []" "sends (e # t) = send_of e @ sends t" "sends (t @ u) = sends t @ sends u"
  by (simp_all add: sends_def)

lemma finals_simps [simp]:
  "finals [] = []" "finals (e # t) = filter is_finalize (send_of e) @ finals t"
  "finals (t @ u) = finals t @ finals u"
  by (simp_all add: finals_def)

declare fragments.simps [simp del]

lemma fragments_Nil [simp]: "fragments n [] = []" "fragments 0 xs = []"
  by (simp_all add: fragments.simps)

lemma fragments_Cons:
  "0 < n \<Longrightarrow> xs \<noteq> [] \<Longrightarrow> fragments n xs = take n xs # fragments n (drop n xs)"
  by (subst fragments.simps) simp

lemma fragments_eq_Nil: "fragments n xs = [] \<longleftrightarrow> n = 0 \<or> xs = []"
  by (subst fragments.simps) simp

lemma take_min_length: "take (min (length xs) n) xs = take n xs"
  by (cases "length xs \<le> n") (simp_all add: min_def)

lemma file_Read_empty:
  "fragments (nat n) (unread f) = [] \<Longrightarrow> file_Read f (make_bytes n) = (nr, buf, err, f') \<Longrightarrow>
     (nr \<le> 0 \<or> err \<noteq> None) \<and> f' = f"
  by (auto simp: file_Read_def make_bytes_def fragments_eq_Nil split: if_splits)

lemma file_Read_some:
  "fragments (nat n) (unread f) \<noteq> [] \<Longrightarrow> file_Read f (make_bytes n) = (nr, buf, err, f') \<Longrightarrow>
     0 < nr \<and> err = None \<and> take (nat nr) buf = take (nat n) (unread f)
     \<and> f' = f\<lparr>unread := drop (nat n) (unread f)\<rparr>"
  by (auto simp: file_Read_def make_bytes_def fragments_eq_Nil Let_def take_min_length
      split: if_splits)

lemma read_step_panic:
  "make_panics lim (PartSize (Config c) - 1) \<Longrightarrow>
     read_step lim c s = s\<lparr>part := part s + 1, mainst := Panic\<rparr>"
  by (simp add: read_step_def)

lemma read_step_end:
  assumes "\<not> make_panics lim (PartSize (Config c) - 1)"
    and "fragments (bufsize c) (unread (osf s)) = []"
  shows "read_step lim c s = s\<lparr>part := part s + 1, mainst := AtWait,
            evs := evs s @ [FileRead (PartSize (Config c) - 1)]\<rparr>"
proof -
  obtain nr buf err f'
    where r: "file_Read (osf s) (make_bytes (PartSize (Config c) - 1)) = (nr, buf, err, f')"
    by (metis prod_cases4)
  from file_Read_empty[OF assms(2)[unfolded bufsize_def] r] assms(1) r
  show ?thesis by (auto simp add: read_step_def Let_def)
qed

lemma read_step_enq:
  assumes "\<not> make_panics lim (PartSize (Config c) - 1)"
    and "fragments (bufsize c) (unread (osf s)) \<noteq> []"
  shows "read_step lim c s = s\<lparr>part := part s + 1,
            osf := (osf s)\<lparr>unread := drop (bufsize c) (unread (osf s))\<rparr>,
            wg := wg s + 1,
            mainst := Sending \<lparr>content = take (bufsize c) (unread (osf s)), count = part s + 1\<rparr>,
            evs := evs s @ [FileRead (PartSize (Config c) - 1),
                     Enq \<lparr>content = take (bufsize c) (unread (osf s)), count = part s + 1\<rparr>]\<rparr>"
proof -
  obtain nr buf err f'
    where r: "file_Read (osf s) (make_bytes (PartSize (Config c) - 1)) = (nr, buf, err, f')"
    by (metis prod_cases4)
  from file_Read_some[OF assms(2)[unfolded bufsize_def] r] assms(1) r
  show ?thesis by (auto simp add: read_step_def Let_def bufsize_def)
qed

lemma length_number [simp]: "length (number i cs) = length cs"
  by (induction cs arbitrary: i) simp_all

text \<open>The acknowledgments owed and the parts held, when a worker or a retry goroutine
  changes.\<close>

lemma uploading_update:
  "k < length ws \<Longrightarrow>
     length (filter is_uploading (ws[k := w])) + (if is_uploading (ws ! k) then 1 else 0)
     = length (filter is_uploading ws) + (if is_uploading w then 1 else 0)"
proof (induction ws arbitrary: k)
  case Nil
  then show ?case by simp
next
  case (Cons a ws)
  show ?case
  proof (cases k)
    case 0
    then show ?thesis by simp
  next
    case (Suc j)
    with Cons.prems have "j < length ws" by simp
    from Cons.IH[OF this] Suc show ?thesis by simp
  qed
qed

lemma items_update:
  "{p. Some p \<in> item_of ` set (ws[k := w])}
     \<subseteq> {p. Some p \<in> item_of ` set ws} \<union> {p. item_of w = Some p}"
proof -
  have "set (ws[k := w]) \<subseteq> insert w (set ws)"
    by (rule set_update_subset_insert)
  then show ?thesis by force
qed

lemma items_nth:
  "k < length ws \<Longrightarrow> item_of (ws ! k) = Some p \<Longrightarrow> p \<in> {p. Some p \<in> item_of ` set ws}"
  by (metis (mono_tags, lifting) image_eqI mem_Collect_eq nth_mem)

lemma offered_update:
  "{p. Some p \<in> offered ` set (rs[i := r])}
     \<subseteq> {p. Some p \<in> offered ` set rs} \<union> {p. offered r = Some p}"
proof -
  have "set (rs[i := r]) \<subseteq> insert r (set rs)"
    by (rule set_update_subset_insert)
  then show ?thesis by force
qed

lemma offered_remove:
  "{p. Some p \<in> offered ` set (take i rs @ drop (Suc i) rs)} \<subseteq> {p. Some p \<in> offered ` set rs}"
proof -
  have "set (take i rs @ drop (Suc i) rs) \<subseteq> set rs"
    using set_take_subset[of i rs] set_drop_subset[of "Suc i" rs] by auto
  then show ?thesis by force
qed

lemma offered_nth:
  "i < length rs \<Longrightarrow> rs ! i = Offering p \<Longrightarrow> p \<in> {p. Some p \<in> offered ` set rs}"
  by (metis (mono_tags, lifting) image_eqI mem_Collect_eq nth_mem offered.simps(1))

lemma session_inv_start: "session_inv c f0 (start c f0)"
proof -
  have "filter is_uploading (replicate n (Waiting None)) = []" for n
    by (induction n) simp_all
  moreover have "Some p \<notin> item_of ` set (replicate n (Waiting None))" for p n
    by (induction n) simp_all
  ultimately show ?thesis
    by (simp add: session_inv_def start_def owed_def held_def)
qed

lemma session_inv_read:
  assumes "session_inv c f0 s" "mainst s = InLoop"
  shows "session_inv c f0 (read_step lim c s)"
proof (cases "make_panics lim (PartSize (Config c) - 1)")
  case True
  then show ?thesis by (simp add: read_step_panic session_inv_def)
next
  case np: False
  show ?thesis
  proof (cases "fragments (bufsize c) (unread (osf s)) = []")
    case True
    with assms show ?thesis
      by (auto simp add: read_step_end[OF np True] session_inv_def owed_def held_def)
  next
    case False
    then have pos: "0 < bufsize c" "unread (osf s) \<noteq> []"
      by (auto simp: fragments_eq_Nil)
    from assms show ?thesis
      by (auto simp add: read_step_enq[OF np False] session_inv_def owed_def held_def
          fragments_Cons[OF pos] algebra_simps)
  qed
qed

lemma session_inv_frame:
  assumes "session_inv c f0 s" "mainst s \<noteq> Panic"
    and "owed s' = owed s" "wg s' = wg s" "held s' \<subseteq> held s"
    and "enqs (evs s') = enqs (evs s)" "acks (evs s') = acks (evs s)"
    and "osf s' = osf s" "part s' = part s" "bar s' = bar s"
    and "mainst s' = AtWait \<longleftrightarrow> mainst s = AtWait"
  shows "session_inv c f0 s'"
  using assms unfolding session_inv_def by auto

lemma session_inv_recv_main:
  assumes "session_inv c f0 s" and "mainst s = Sending item"
    and "k < length (workers s)" and "workers s ! k = Waiting v"
  shows "session_inv c f0 (recv_item c info k item (s\<lparr>mainst := InLoop\<rparr>))"
proof -
  let ?s = "recv_item c info k item (s\<lparr>mainst := InLoop\<rparr>)"
  have np: "mainst s \<noteq> Panic" using assms(2) by simp
  have o: "owed ?s = owed s"
    using uploading_update[OF assms(3), of "Uploading item"] assms(2,4)
    by (simp add: owed_def recv_item_def)
  have h: "held ?s \<subseteq> held s"
    using items_update[of "workers s" k "Uploading item"] assms(2)
    by (auto simp add: held_def recv_item_def)
  from assms(1) np o _ h show ?thesis
    by (rule session_inv_frame) (simp_all add: recv_item_def assms(2))
qed

lemma session_inv_recv_retry:
  assumes "session_inv c f0 s" and "mainst s \<noteq> Panic"
    and "i < length (retrying s)" and "retrying s ! i = Offering item"
    and "k < length (workers s)" and "workers s ! k = Waiting v"
  shows "session_inv c f0 (recv_item c info k item
           (s\<lparr>retrying := take i (retrying s) @ drop (Suc i) (retrying s)\<rparr>))"
proof -
  let ?s = "recv_item c info k item
           (s\<lparr>retrying := take i (retrying s) @ drop (Suc i) (retrying s)\<rparr>)"
  have l: "length (take i (retrying s) @ drop (Suc i) (retrying s)) + 1 = length (retrying s)"
    using assms(3) by simp
  have o: "owed ?s = owed s"
    using uploading_update[OF assms(5), of "Uploading item"] assms(6) l
    by (simp add: owed_def recv_item_def del: length_append length_take length_drop)
  have "item \<in> held s"
    using offered_nth[OF assms(3,4)] by (simp add: held_def)
  then have h: "held ?s \<subseteq> held s"
    using items_update[of "workers s" k "Uploading item"] offered_remove[of i "retrying s"]
    by (auto simp add: held_def recv_item_def)
  from assms(1,2) o _ h show ?thesis
    by (rule session_inv_frame) (simp_all add: recv_item_def)
qed

lemma session_inv_evaluate:
  assumes "session_inv c f0 s" and "mainst s \<noteq> Panic"
    and "i < length (retrying s)"
    and "k < length (workers s)" and "item_of (workers s ! k) = Some item"
  shows "session_inv c f0 (s\<lparr>retrying := (retrying s)[i := Offering item],
                              evs := evs s @ [Requeue item]\<rparr>)"
proof -
  let ?s = "s\<lparr>retrying := (retrying s)[i := Offering item], evs := evs s @ [Requeue item]\<rparr>"
  have o: "owed ?s = owed s"
    by (simp add: owed_def)
  have "item \<in> held s"
    using items_nth[OF assms(4,5)] by (simp add: held_def)
  then have h: "held ?s \<subseteq> held s"
    using offered_update[of "retrying s" i "Offering item"]
    by (auto simp add: held_def)
  from assms(1,2) o _ h show ?thesis
    by (rule session_inv_frame) simp_all
qed

lemma reply_step_retried:
  "uploader item x = Retried \<Longrightarrow>
     reply_step k item x s = s\<lparr>workers := (workers s)[k := Waiting (Some item)],
        retrying := retrying s @ [Spawned k]\<rparr>"
  by (simp add: reply_step_def Let_def)

lemma reply_step_acknowledged:
  "uploader item x = Acknowledged \<Longrightarrow> 0 < wg s \<Longrightarrow>
     reply_step k item x s = s\<lparr>workers := (workers s)[k := Waiting (Some item)],
        bar := bar s + int (length (content item)), wg := wg s - 1,
        evs := evs s @ [Ack item]\<rparr>"
  by (simp add: reply_step_def Let_def)

lemma owed_uploading:
  assumes "k < length (workers s)" "workers s ! k = Uploading item"
  shows "0 < owed s"
proof -
  have "workers s ! k \<in> set (workers s)"
    using assms(1) by (rule nth_mem)
  then have "workers s ! k \<in> set (filter is_uploading (workers s))"
    by (simp add: assms(2))
  then have "0 < length (filter is_uploading (workers s))"
    by (metis length_pos_if_in_set)
  then show ?thesis by (simp add: owed_def)
qed

lemma session_inv_answer:
  assumes "session_inv c f0 s" and "mainst s \<noteq> Panic"
    and "k < length (workers s)" and "workers s ! k = Uploading item"
  shows "session_inv c f0 (reply_step k item x s)"
proof (cases "uploader item x")
  case Retried
  note r = reply_step_retried[OF Retried, of k s]
  have o: "owed (reply_step k item x s) = owed s"
    unfolding r using uploading_update[OF assms(3), of "Waiting (Some item)"] assms(4)
    by (simp add: owed_def)
  have "item \<in> held s"
    using items_nth[OF assms(3), of item] assms(4) by (simp add: held_def)
  then have h: "held (reply_step k item x s) \<subseteq> held s"
    unfolding r using items_update[of "workers s" k "Waiting (Some item)"]
    by (auto simp add: held_def)
  from assms(1,2) o _ h show ?thesis
    by (rule session_inv_frame) (simp_all add: r)
next
  case Acknowledged
  from assms have w: "wg s = int (owed s)"
    by (simp add: session_inv_def)
  have op: "0 < owed s"
    using assms(3,4) by (rule owed_uploading)
  with w have pos: "0 < wg s" by simp
  note r = reply_step_acknowledged[OF Acknowledged pos, of k]
  have o: "owed (reply_step k item x s) + 1 = owed s"
    unfolding r using uploading_update[OF assms(3), of "Waiting (Some item)"] assms(4)
    by (simp add: owed_def)
  have ih: "item \<in> held s"
    using items_nth[OF assms(3), of item] assms(4) by (simp add: held_def)
  then have h: "held (reply_step k item x s) \<subseteq> held s"
    unfolding r using items_update[of "workers s" k "Waiting (Some item)"]
    by (auto simp add: held_def)
  have rest: "evs (reply_step k item x s) = evs s @ [Ack item]"
    "wg (reply_step k item x s) = wg s - 1"
    "bar (reply_step k item x s) = bar s + int (length (content item))"
    "osf (reply_step k item x s) = osf s" "part (reply_step k item x s) = part s"
    "mainst (reply_step k item x s) = mainst s"
    by (simp_all add: r)
  from assms(1,2) ih h o show ?thesis
    unfolding session_inv_def rest by auto
qed

lemma session_inv_step:
  assumes "session_inv c f0 s" "step lim c info a s = Some s'"
  shows "session_inv c f0 s'"
proof -
  from assms(2) have np: "mainst s \<noteq> Panic"
    by (auto simp: step_def split: if_splits)
  show ?thesis
  proof (cases a)
    case MainRead
    with assms np show ?thesis
      by (auto simp: step_def session_inv_read split: if_splits)
  next
    case (Receive k src)
    with assms np show ?thesis
      by (auto simp: step_def session_inv_recv_main session_inv_recv_retry
          split: if_splits source.splits mainst.splits wstate.splits retry.splits)
  next
    case (Evaluate i)
    with assms np show ?thesis
      by (auto simp: step_def session_inv_evaluate
          split: if_splits retry.splits option.splits)
  next
    case (Answer k x)
    with assms np show ?thesis
      by (auto simp: step_def session_inv_answer split: if_splits wstate.splits)
  qed
qed

lemma session_inv_run:
  "session_inv c f0 s \<Longrightarrow> run lim c info sch s = Some s' \<Longrightarrow> session_inv c f0 s'"
  by (induction sch arbitrary: s) (auto split: option.splits dest: session_inv_step)

lemma session_inv_reachable:
  "run lim c info sch (start c f) = Some s \<Longrightarrow> session_inv c f s"
  using session_inv_start by (rule session_inv_run)


subsection \<open>The numbering of the fragments\<close>

lemma count_number_set: "count ` set (number i cs) = {i..<i + int (length cs)}"
  by (induction cs arbitrary: i) (auto simp: image_iff)

lemma distinct_count_number: "distinct (map count (number i cs))"
proof (induction cs arbitrary: i)
  case Nil
  show ?case by simp
next
  case (Cons c cs)
  have "i \<notin> count ` set (number (i + 1) cs)"
    unfolding count_number_set by simp
  with Cons show ?case by simp
qed

lemma number_append:
  "number i (xs @ ys) = number i xs @ number (i + int (length xs)) ys"
  by (induction xs arbitrary: i) (simp_all add: algebra_simps)

lemma number_prefix:
  assumes "es @ number (int (length es)) rest = number 0 cs"
  shows "es = number 0 (take (length es) cs)"
proof -
  have l: "length es \<le> length cs"
    using arg_cong[OF assms, of length] by simp
  have "number 0 cs = number 0 (take (length es) cs) @
      number (int (length es)) (drop (length es) cs)"
    using number_append[of 0 "take (length es) cs" "drop (length es) cs"] l
    by (simp add: min_def)
  with assms have "es @ number (int (length es)) rest =
      number 0 (take (length es) cs) @ number (int (length es)) (drop (length es) cs)"
    by simp
  then show ?thesis
    using l by (simp add: append_eq_append_conv)
qed

lemma concat_fragments: "concat (fragments n xs) = (if n = 0 then [] else xs)"
proof (induction n xs rule: fragments.induct)
  case (1 n xs)
  show ?case
  proof (cases "n = 0 \<or> xs = []")
    case True
    then show ?thesis by auto
  next
    case False
    with 1 show ?thesis by (simp add: fragments_Cons)
  qed
qed

lemma content_number [simp]: "map content (number i cs) = cs"
  by (induction cs arbitrary: i) simp_all


subsection \<open>The completion counter\<close>

lemma enqs_numbered:
  assumes "session_inv c f s" "mainst s \<noteq> Panic"
  shows "enqs (evs s) = number 0 (take (length (enqs (evs s))) (fragments (bufsize c) (unread f)))"
proof -
  from assms have "enqs (evs s) @ number (int (length (enqs (evs s))))
      (fragments (bufsize c) (unread (osf s))) = number 0 (fragments (bufsize c) (unread f))"
    unfolding session_inv_def by blast
  then show ?thesis by (rule number_prefix)
qed

lemma enqs_distinct:
  assumes "session_inv c f s" "mainst s \<noteq> Panic"
  shows "distinct (map count (enqs (evs s)))"
  by (subst enqs_numbered[OF assms]) (rule distinct_count_number)

lemma enqs_counts:
  assumes "session_inv c f s" "mainst s \<noteq> Panic"
  shows "count ` set (enqs (evs s)) = {0..<int (length (enqs (evs s)))}"
proof -
  have "count ` set (enqs (evs s)) = {0..<0 + int (length (enqs (evs s)))}"
    by (subst enqs_numbered[OF assms], subst count_number_set)
       (metis assms enqs_numbered length_number)
  then show ?thesis by simp
qed


lemma acks_counts:
  assumes "session_inv c f s" "mainst s \<noteq> Panic"
  shows "set (map count (acks (evs s))) \<subseteq> {0..<int (length (enqs (evs s)))}"
proof -
  from assms have "set (acks (evs s)) \<subseteq> set (enqs (evs s))"
    by (simp add: session_inv_def)
  then have "count ` set (acks (evs s)) \<subseteq> count ` set (enqs (evs s))"
    by (rule image_mono)
  then show ?thesis
    unfolding enqs_counts[OF assms] by simp
qed

lemma counter_is_owed:
  assumes "session_inv c f s" "mainst s \<noteq> Panic"
  shows "wg s = int (length (enqs (evs s))) - int (length (acks (evs s)))"
  using assms by (simp add: session_inv_def)

lemma counter_zero_iff_lengths:
  assumes "session_inv c f s" "mainst s \<noteq> Panic"
  shows "wg s = 0 \<longleftrightarrow> length (acks (evs s)) = length (enqs (evs s))"
  using counter_is_owed[OF assms] by auto



lemma at_wait_all_enqueued:
  assumes "session_inv c f s" "mainst s = AtWait"
  shows "enqs (evs s) = number 0 (fragments (bufsize c) (unread f))"
    and "part s = int (length (fragments (bufsize c) (unread f)))"
proof -
  from assms show e: "enqs (evs s) = number 0 (fragments (bufsize c) (unread f))"
    by (auto simp: session_inv_def)
  from assms have "part s = int (length (enqs (evs s)))"
    by (simp add: session_inv_def)
  then show "part s = int (length (fragments (bufsize c) (unread f)))"
    by (simp add: e)
qed




subsection \<open>The structure of a file's run\<close>

lemma getUploadConfig_trace:
  "fst (getUploadConfig w info) = [Send (GetKSCloudToken (info_Name info) (info_Size info))]"
  by (simp add: getUploadConfig_def request_def split: exchange.splits option.splits)

lemma uploadRequest_trace: "fst (uploadRequest dbg w r) = [Send r]"
  by (simp add: uploadRequest_def)

lemma request_trace: "fst (request w r) = [Send r]"
  by (simp add: request_def)

lemma main_body_opened:
  assumes "os_Stat w v = Inr info"
    and "snd (getUploadConfig w info) = Inr c"
    and "snd (uploadRequest (debug fl) w (ResumeReq (Token c))) = None"
    and "os_Open w v = Inr f"
  shows "main_body fl w v sch =
    (case run (alloc_limit w) c info sch (start c f) of
       None \<Rightarrow> None
     | Some s \<Rightarrow>
         if mainst s = Panic then Some (prelude v info c @ evs s, Died)
         else if mainst s = AtWait \<and> wg s = 0 then
           Some (prelude v info c @ evs s @ epilogue @
                 fst (finishUpload (debug fl) w (Token c) (part s) (TaskID c) v) @
                 (case snd (finishUpload (debug fl) w (Token c) (part s) (TaskID c) v) of
                    None \<Rightarrow> [] | Some e \<Rightarrow> [Printf_error ''finishUpload returns error'' e]),
                 case snd (finishUpload (debug fl) w (Token c) (part s) (TaskID c) v) of
                    None \<Rightarrow> Done | Some e \<Rightarrow> Failed AtFinalize)
         else None)"
proof -
  have g: "getUploadConfig w info =
      ([Send (GetKSCloudToken (info_Name info) (info_Size info))], Inr c)"
    using assms(2) getUploadConfig_trace[of w info] by (cases "getUploadConfig w info") simp
  have u: "uploadRequest (debug fl) w (ResumeReq (Token c)) = ([Send (ResumeReq (Token c))], None)"
    using assms(3) uploadRequest_trace[of "debug fl" w "ResumeReq (Token c)"]
    by (cases "uploadRequest (debug fl) w (ResumeReq (Token c))") simp
  show ?thesis
    by (simp add: main_body_def getFileInfo_def assms(1,4) g u prelude_def epilogue_def Let_def
        split: option.splits prod.splits)
qed

lemma main_body_early:
  assumes "main_body fl w v sch = Some (t, st)"
    and "st \<noteq> Failed AtStat" "st \<noteq> Failed AtNegotiate" "st \<noteq> Failed AtResume" "st \<noteq> Failed AtOpen"
  obtains info c f where "os_Stat w v = Inr info"
    and "snd (getUploadConfig w info) = Inr c"
    and "snd (uploadRequest (debug fl) w (ResumeReq (Token c))) = None"
    and "os_Open w v = Inr f"
proof (cases "os_Stat w v")
  case (Inl e)
  with assms show ?thesis by (simp add: main_body_def getFileInfo_def)
next
  case info: (Inr info)
  show ?thesis
  proof (cases "snd (getUploadConfig w info)")
    case (Inl e)
    with assms info show ?thesis
      by (cases "getUploadConfig w info") (simp add: main_body_def getFileInfo_def)
  next
    case c: (Inr c)
    show ?thesis
    proof (cases "snd (uploadRequest (debug fl) w (ResumeReq (Token c)))")
      case (Some e)
      with assms info c show ?thesis
        by (cases "getUploadConfig w info"; cases "uploadRequest (debug fl) w (ResumeReq (Token c))")
           (simp add: main_body_def getFileInfo_def)
    next
      case None
      show ?thesis
      proof (cases "os_Open w v")
        case (Inl e)
        with assms info c None show ?thesis
          by (cases "getUploadConfig w info"; cases "uploadRequest (debug fl) w (ResumeReq (Token c))")
             (simp add: main_body_def getFileInfo_def)
      next
        case (Inr f)
        with info c None that show ?thesis by blast
      qed
    qed
  qed
qed

lemma main_body_finalized:
  assumes "main_body fl w v sch = Some (t, st)" and "st = Done \<or> st = Failed AtFinalize"
  obtains info c f s where "os_Stat w v = Inr info"
    and "snd (getUploadConfig w info) = Inr c"
    and "snd (uploadRequest (debug fl) w (ResumeReq (Token c))) = None"
    and "os_Open w v = Inr f"
    and "run (alloc_limit w) c info sch (start c f) = Some s" and "mainst s = AtWait" and "wg s = 0"
    and "t = prelude v info c @ evs s @ epilogue @
             fst (finishUpload (debug fl) w (Token c) (part s) (TaskID c) v) @
             (case snd (finishUpload (debug fl) w (Token c) (part s) (TaskID c) v) of
                None \<Rightarrow> [] | Some e \<Rightarrow> [Printf_error ''finishUpload returns error'' e])"
    and "st = Done \<longleftrightarrow> snd (finishUpload (debug fl) w (Token c) (part s) (TaskID c) v) = None"
proof -
  from assms obtain info c f where o: "os_Stat w v = Inr info"
    "snd (getUploadConfig w info) = Inr c"
    "snd (uploadRequest (debug fl) w (ResumeReq (Token c))) = None"
    "os_Open w v = Inr f"
    by (elim main_body_early) auto
  note m = main_body_opened[OF o, of sch]
  from assms m obtain s where s: "run (alloc_limit w) c info sch (start c f) = Some s"
    by (cases "run (alloc_limit w) c info sch (start c f)") auto
  from assms m s have w: "mainst s = AtWait" "wg s = 0"
    by (auto split: if_splits)
  from assms m s
  have t: "t = prelude v info c @ evs s @ epilogue @
             fst (finishUpload (debug fl) w (Token c) (part s) (TaskID c) v) @
             (case snd (finishUpload (debug fl) w (Token c) (part s) (TaskID c) v) of
                None \<Rightarrow> [] | Some e \<Rightarrow> [Printf_error ''finishUpload returns error'' e])"
    and d: "st = Done \<longleftrightarrow> snd (finishUpload (debug fl) w (Token c) (part s) (TaskID c) v) = None"
    by (auto split: if_splits option.splits)
  show ?thesis
    by (rule that[OF o s w t d])
qed

lemma enqs_prelude [simp]: "enqs (prelude v info c) = []"
  and acks_prelude [simp]: "acks (prelude v info c) = []"
  and finals_prelude [simp]: "finals (prelude v info c) = []"
  by (induction "nat (Parallel (Config c))") (simp_all add: prelude_def enqs_def acks_def finals_def sends_def)

lemma enqs_epilogue [simp]: "enqs epilogue = []"
  and acks_epilogue [simp]: "acks epilogue = []"
  and finals_epilogue [simp]: "finals epilogue = []"
  by (simp_all add: epilogue_def)


lemma step_finals:
  "step lim c info a s = Some s' \<Longrightarrow> finals (evs s') = finals (evs s)"
  by (auto simp: step_def read_step_def recv_item_def reply_step_def postFragment_def Let_def
      split: if_splits act.splits source.splits mainst.splits prod.splits verdict.splits
        wstate.splits retry.splits option.splits)

lemma run_finals:
  "run lim c info sch s = Some s' \<Longrightarrow> finals (evs s') = finals (evs s)"
  by (induction sch arbitrary: s) (auto split: option.splits dest: step_finals)

lemma session_finals: "run lim c info sch (start c f) = Some s \<Longrightarrow> finals (evs s) = []"
  using run_finals[of lim c info sch "start c f" s] by (simp add: start_def)

lemma step_no_panic:
  assumes "session_inv c f0 s" "step lim c info a s = Some s'"
    and "\<not> make_panics lim (PartSize (Config c) - 1)"
  shows "mainst s' \<noteq> Panic"
proof -
  from assms(2) have np: "mainst s \<noteq> Panic"
    by (auto simp: step_def split: if_splits)
  show ?thesis
  proof (cases a)
    case MainRead
    with assms np show ?thesis
      by (auto simp: step_def read_step_def Let_def split: if_splits prod.splits)
  next
    case (Receive k src)
    with assms np show ?thesis
      by (auto simp: step_def recv_item_def
          split: if_splits source.splits mainst.splits wstate.splits retry.splits)
  next
    case (Evaluate i)
    with assms np show ?thesis
      by (auto simp: step_def split: if_splits retry.splits option.splits)
  next
    case (Answer k x)
    with assms(2) np obtain item where k: "k < length (workers s)"
      and u: "workers s ! k = Uploading item" and s': "s' = reply_step k item x s"
      by (auto simp: step_def split: if_splits wstate.splits)
    from assms(1) np have "wg s = int (owed s)"
      by (simp add: session_inv_def)
    with owed_uploading[OF k u] have "0 < wg s" by simp
    with np show ?thesis
      unfolding s' by (cases "uploader item x")
        (simp_all add: reply_step_retried reply_step_acknowledged)
  qed
qed

lemma run_no_panic:
  "session_inv c f0 s \<Longrightarrow> mainst s \<noteq> Panic \<Longrightarrow> \<not> make_panics lim (PartSize (Config c) - 1) \<Longrightarrow>
     run lim c info sch s = Some s' \<Longrightarrow> mainst s' \<noteq> Panic"
proof (induction sch arbitrary: s)
  case Nil
  then show ?case by simp
next
  case (Cons a sch)
  from Cons.prems(4) obtain s1 where s1: "step lim c info a s = Some s1"
    "run lim c info sch s1 = Some s'"
    by (auto split: option.splits)
  show ?case
    using Cons.IH[OF session_inv_step[OF Cons.prems(1) s1(1)]
        step_no_panic[OF Cons.prems(1) s1(1) Cons.prems(3)] Cons.prems(3) s1(2)] .
qed

lemma session_no_panic:
  "\<not> make_panics lim (PartSize (Config c) - 1) \<Longrightarrow> run lim c info sch (start c f) = Some s \<Longrightarrow>
     mainst s \<noteq> Panic"
  using run_no_panic[OF session_inv_start, of c f lim info sch s] by (simp add: start_def)




subsection \<open>The finalize handshake\<close>

lemma finishUpload_finals:
  "finals (fst (finishUpload dbg w tok n task v)) =
     (if snd (uploadRequest dbg w (CompleteReq n tok)) \<noteq> None then [CompleteReq n tok]
      else if isl (snd (request w (CreateVideoReq task v)))
        then [CompleteReq n tok, CreateVideoReq task v]
      else [CompleteReq n tok, CreateVideoReq task v, UploadFinishReq task])"
  by (simp add: finishUpload_def uploadRequest_def request_def
      split: exchange.splits option.splits)

lemma finishUpload_success:
  assumes "snd (finishUpload dbg w tok n task v) = None"
  shows "fst (finishUpload dbg w tok n task v) =
           [Send (CompleteReq n tok), Send (CreateVideoReq task v), Send (UploadFinishReq task)]"
  using assms
  by (simp add: finishUpload_def uploadRequest_def request_def
      split: exchange.splits option.splits if_splits)

text \<open>
  What holds of every file that completes (its status is \<open>Done\<close>): its trace ends with the
  return of \<^verbatim>\<open>wg.Wait()\<close> and the three requests of \<^verbatim>\<open>finishUpload\<close> in their order,
  nothing before it is a request of the handshake, the fragment count sent is the number
  of parts enqueued, and there are as many acknowledgments as parts enqueued, all of them
  of parts that were enqueued.
\<close>

lemma finalize_after_counter_zero:
  assumes "main_body fl w v sch = Some (t, Done)"
  shows "\<exists>pre n tok task.
            t = pre @ epilogue @ [Send (CompleteReq n tok), Send (CreateVideoReq task v),
                                  Send (UploadFinishReq task)]
          \<and> finals pre = []
          \<and> finals t = [CompleteReq n tok, CreateVideoReq task v, UploadFinishReq task]
          \<and> n = int (length (enqs pre))
          \<and> length (acks pre) = length (enqs pre)
          \<and> set (acks pre) \<subseteq> set (enqs pre)"
proof -
  from assms obtain info c f s where o: "run (alloc_limit w) c info sch (start c f) = Some s"
    "mainst s = AtWait" "wg s = 0"
    and t: "t = prelude v info c @ evs s @ epilogue @
             fst (finishUpload (debug fl) w (Token c) (part s) (TaskID c) v) @
             (case snd (finishUpload (debug fl) w (Token c) (part s) (TaskID c) v) of
                None \<Rightarrow> [] | Some e \<Rightarrow> [Printf_error ''finishUpload returns error'' e])"
    and d: "snd (finishUpload (debug fl) w (Token c) (part s) (TaskID c) v) = None"
    by (elim main_body_finalized) auto
  let ?pre = "prelude v info c @ evs s"
  have np: "mainst s \<noteq> Panic" using o(2) by simp
  note inv = session_inv_reachable[OF o(1)]
  have p: "part s = int (length (enqs (evs s)))"
    using at_wait_all_enqueued[OF inv o(2)] by simp
  have 1: "t = ?pre @ epilogue @ [Send (CompleteReq (part s) (Token c)),
      Send (CreateVideoReq (TaskID c) v), Send (UploadFinishReq (TaskID c))]"
    using t by (simp add: d finishUpload_success[OF d])
  have 2: "finals ?pre = []"
    by (simp add: session_finals[OF o(1)])
  have 3: "finals t = [CompleteReq (part s) (Token c), CreateVideoReq (TaskID c) v,
      UploadFinishReq (TaskID c)]"
    unfolding 1 using 2 by simp
  have 4: "part s = int (length (enqs ?pre))"
    using p by simp
  have 5: "length (acks ?pre) = length (enqs ?pre)"
    using counter_zero_iff_lengths[OF inv np] o(3) by simp
  have 6: "set (acks ?pre) \<subseteq> set (enqs ?pre)"
    using inv np by (simp add: session_inv_def)
  from 1 2 3 4 5 6 show ?thesis by blast
qed

text \<open>
  C4 fails on \<^verbatim>\<open>src/unnamed/part_000\<close>. A file of the two bytes 1, 2 is read one byte at a
  time (\<^verbatim>\<open>PartSize\<close> 2) by one worker. The upload of part 0 fails in \<^verbatim>\<open>client.Do\<close>; the worker
  starts the goroutine that will send \<^verbatim>\<open>item\<close> and goes back to its receive, where it takes
  part 1 from the main goroutine, which assigns \<^verbatim>\<open>item\<close>. Only then the goroutine reads \<^verbatim>\<open>item\<close>:
  it offers part 1. Part 1 is uploaded and acknowledged twice, the counter reaches zero, and
  the file is finalized and reported as done, with a fragment count of 2, although index 0
  was never acknowledged.
\<close>

theorem finalize_with_lost_fragment:
  "main_body creds (world_of [1, 2] AtEOF (Response 200 (Some (config_of 2 1)))) ''a''
     [MainRead, Receive 0 FromMain, Answer 0 DoFails, MainRead, Receive 0 FromMain,
      Evaluate 0, Answer 0 (ok_reply 1), MainRead, Receive 0 (FromRetry 0),
      Answer 0 (ok_reply 1)] =
   Some ([Println ''Local: a'', Stat ''a'', Send (GetKSCloudToken ''a'' 2),
          Send (ResumeReq ''tok''), BarStart 2, Open ''a'', GoUploader,
          FileRead 1, Enq \<lparr>content = [1], count = 0\<rparr>,
          Send (FragmentReq ''tok'' 0 [1] 0 0 2),
          FileRead 1, Enq \<lparr>content = [2], count = 1\<rparr>,
          Send (FragmentReq ''tok'' 1 [2] 1 1 2),
          Requeue \<lparr>content = [2], count = 1\<rparr>,
          Ack \<lparr>content = [2], count = 1\<rparr>, FileRead 1,
          Send (FragmentReq ''tok'' 1 [2] 1 1 2),
          Ack \<lparr>content = [2], count = 1\<rparr>,
          WgWait, ChanClose, FileClose, BarFinish, Send (CompleteReq 2 ''tok''),
          Send (CreateVideoReq ''task'' ''a''), Send (UploadFinishReq ''task'')],
         Done)
   \<and> ack_count [Println ''Local: a'', Stat ''a'', Send (GetKSCloudToken ''a'' 2),
          Send (ResumeReq ''tok''), BarStart 2, Open ''a'', GoUploader,
          FileRead 1, Enq \<lparr>content = [1], count = 0\<rparr>,
          Send (FragmentReq ''tok'' 0 [1] 0 0 2),
          FileRead 1, Enq \<lparr>content = [2], count = 1\<rparr>,
          Send (FragmentReq ''tok'' 1 [2] 1 1 2),
          Requeue \<lparr>content = [2], count = 1\<rparr>,
          Ack \<lparr>content = [2], count = 1\<rparr>, FileRead 1,
          Send (FragmentReq ''tok'' 1 [2] 1 1 2),
          Ack \<lparr>content = [2], count = 1\<rparr>] 0 = 0
   \<and> ack_count [Println ''Local: a'', Stat ''a'', Send (GetKSCloudToken ''a'' 2),
          Send (ResumeReq ''tok''), BarStart 2, Open ''a'', GoUploader,
          FileRead 1, Enq \<lparr>content = [1], count = 0\<rparr>,
          Send (FragmentReq ''tok'' 0 [1] 0 0 2),
          FileRead 1, Enq \<lparr>content = [2], count = 1\<rparr>,
          Send (FragmentReq ''tok'' 1 [2] 1 1 2),
          Requeue \<lparr>content = [2], count = 1\<rparr>,
          Ack \<lparr>content = [2], count = 1\<rparr>, FileRead 1,
          Send (FragmentReq ''tok'' 1 [2] 1 1 2),
          Ack \<lparr>content = [2], count = 1\<rparr>] 1 = 2"
  by (simp add: eval_defs ack_count_def)

text \<open>
  The same answers with the goroutine running at once (before the worker's next receive)
  give the run the claim describes: part 0 is offered again and each index is acknowledged
  once before the handshake.
\<close>

lemma finalize_with_prompt_retry:
  "main_body creds (world_of [1, 2] AtEOF (Response 200 (Some (config_of 2 1)))) ''a''
     [MainRead, Receive 0 FromMain, Answer 0 DoFails, Evaluate 0, MainRead,
      Receive 0 FromMain, Answer 0 (ok_reply 1), MainRead, Receive 0 (FromRetry 0),
      Answer 0 (ok_reply 1)] =
   Some ([Println ''Local: a'', Stat ''a'', Send (GetKSCloudToken ''a'' 2),
          Send (ResumeReq ''tok''), BarStart 2, Open ''a'', GoUploader,
          FileRead 1, Enq \<lparr>content = [1], count = 0\<rparr>,
          Send (FragmentReq ''tok'' 0 [1] 0 0 2),
          Requeue \<lparr>content = [1], count = 0\<rparr>,
          FileRead 1, Enq \<lparr>content = [2], count = 1\<rparr>,
          Send (FragmentReq ''tok'' 1 [2] 1 1 2),
          Ack \<lparr>content = [2], count = 1\<rparr>, FileRead 1,
          Send (FragmentReq ''tok'' 0 [1] 0 0 2),
          Ack \<lparr>content = [1], count = 0\<rparr>,
          WgWait, ChanClose, FileClose, BarFinish, Send (CompleteReq 2 ''tok''),
          Send (CreateVideoReq ''task'' ''a''), Send (UploadFinishReq ''task'')],
         Done)"
  by (simp add: eval_defs)


subsection \<open>A failing read\<close>

lemma read_step_ending:
  "read_step lim c (with_ending e s) = with_ending e (read_step lim c s)"
  by (simp add: read_step_def with_ending_def file_Read_def Let_def)

lemma recv_item_ending:
  "recv_item c info k item (with_ending e s) = with_ending e (recv_item c info k item s)"
  by (simp add: recv_item_def with_ending_def)

lemma reply_step_ending:
  "reply_step k item x (with_ending e s) = with_ending e (reply_step k item x s)"
  by (simp add: reply_step_def with_ending_def Let_def split: verdict.splits)

lemma step_ending:
  "step lim c info a (with_ending e s) = map_option (with_ending e) (step lim c info a s)"
proof -
  have f: "mainst (with_ending e s) = mainst s" "workers (with_ending e s) = workers s"
    "retrying (with_ending e s) = retrying s"
    by (simp_all add: with_ending_def)
  show ?thesis
  proof (cases a)
    case MainRead
    then show ?thesis
      by (simp add: step_def read_step_ending f)
  next
    case (Receive k src)
    have "recv_item c info k item ((with_ending e s)\<lparr>mainst := InLoop\<rparr>)
        = with_ending e (recv_item c info k item (s\<lparr>mainst := InLoop\<rparr>))" for item
      by (simp add: recv_item_def with_ending_def)
    moreover have "recv_item c info k item ((with_ending e s)\<lparr>retrying := r\<rparr>)
        = with_ending e (recv_item c info k item (s\<lparr>retrying := r\<rparr>))" for item r
      by (simp add: recv_item_def with_ending_def)
    ultimately show ?thesis
      using Receive
      by (simp add: step_def f split: source.splits mainst.splits wstate.splits retry.splits)
  next
    case (Evaluate i)
    have "(with_ending e s)\<lparr>retrying := r, evs := evs (with_ending e s) @ t\<rparr>
        = with_ending e (s\<lparr>retrying := r, evs := evs s @ t\<rparr>)" for r t
      by (simp add: with_ending_def)
    then show ?thesis
      using Evaluate by (simp add: step_def f split: retry.splits option.splits)
  next
    case (Answer k x)
    then show ?thesis
      by (simp add: step_def reply_step_ending f split: wstate.splits)
  qed
qed

lemma run_ending:
  "run lim c info sch (with_ending e s) = map_option (with_ending e) (run lim c info sch s)"
  by (induction sch arbitrary: s) (simp_all add: step_ending split: option.splits)

lemma start_ending: "start c (f\<lparr>ending := e\<rparr>) = with_ending e (start c f)"
  by (simp add: start_def with_ending_def)

lemma with_ending_fields [simp]:
  "mainst (with_ending e s) = mainst s" "wg (with_ending e s) = wg s"
  "part (with_ending e s) = part s" "evs (with_ending e s) = evs s"
  by (simp_all add: with_ending_def)

lemma eof_world_remote:
  "getUploadConfig (eof_world w) = getUploadConfig w"
  "uploadRequest dbg (eof_world w) = uploadRequest dbg w"
  "finishUpload dbg (eof_world w) = finishUpload dbg w"
  "os_Stat (eof_world w) = os_Stat w"
  "alloc_limit (eof_world w) = alloc_limit w"
  by (intro ext, simp add: getUploadConfig_def uploadRequest_def finishUpload_def request_def
      eof_world_def)+ (simp add: eof_world_def)

lemma main_body_eof_world: "main_body fl (eof_world w) v sch = main_body fl w v sch"
proof (cases "os_Stat w v")
  case (Inl e)
  then show ?thesis
    by (simp add: main_body_def getFileInfo_def eof_world_remote)
next
  case info: (Inr info)
  obtain t2 r2 where g: "getUploadConfig w info = (t2, r2)"
    by (cases "getUploadConfig w info")
  show ?thesis
  proof (cases r2)
    case (Inl e)
    then show ?thesis
      by (simp add: main_body_def getFileInfo_def eof_world_remote info g)
  next
    case c: (Inr c)
    obtain t3 r3 where u: "uploadRequest (debug fl) w (ResumeReq (Token c)) = (t3, r3)"
      by (cases "uploadRequest (debug fl) w (ResumeReq (Token c))")
    show ?thesis
    proof (cases r3)
      case (Some e)
      then show ?thesis
        by (simp add: main_body_def getFileInfo_def eof_world_remote info g c u)
    next
      case None
      show ?thesis
      proof (cases "os_Open w v")
        case (Inl e)
        then have "os_Open (eof_world w) v = Inl e"
          by (simp add: eof_world_def)
        with Inl show ?thesis
          by (simp add: main_body_def getFileInfo_def eof_world_remote info g c u None)
      next
        case (Inr f)
        then have o: "os_Open (eof_world w) v = Inr (f\<lparr>ending := AtEOF\<rparr>)"
          by (simp add: eof_world_def)
        have h: "snd (getUploadConfig w info) = Inr c"
          "snd (uploadRequest (debug fl) w (ResumeReq (Token c))) = None"
          by (simp_all add: g c u None)
        have h': "os_Stat (eof_world w) v = Inr info"
          "snd (getUploadConfig (eof_world w) info) = Inr c"
          "snd (uploadRequest (debug fl) (eof_world w) (ResumeReq (Token c))) = None"
          by (simp_all add: eof_world_remote info h)
        show ?thesis
          unfolding main_body_opened[OF info h Inr] main_body_opened[OF h' o]
          by (cases "run (alloc_limit w) c info sch (start c f)")
             (simp_all add: start_ending run_ending eof_world_remote)
      qed
    qed
  qed
qed

lemma files_loop_eof_world: "files_loop fl (eof_world w) vs schs = files_loop fl w vs schs"
  by (induction vs arbitrary: schs)
     (simp_all add: main_body_eof_world split: option.splits prod.splits status.splits)

lemma main_body_reaches_finalize:
  assumes "os_Stat w v = Inr info"
    and "snd (getUploadConfig w info) = Inr c"
    and "snd (uploadRequest (debug fl) w (ResumeReq (Token c))) = None"
    and "os_Open w v = Inr f"
    and "\<not> make_panics (alloc_limit w) (PartSize (Config c) - 1)"
    and "main_body fl w v sch = Some (t, st)"
  obtains s where "run (alloc_limit w) c info sch (start c f) = Some s" "mainst s = AtWait" "wg s = 0"
    and "t = prelude v info c @ evs s @ epilogue @
             fst (finishUpload (debug fl) w (Token c) (part s) (TaskID c) v) @
             (case snd (finishUpload (debug fl) w (Token c) (part s) (TaskID c) v) of
                None \<Rightarrow> [] | Some e \<Rightarrow> [Printf_error ''finishUpload returns error'' e])"
    and "st = Done \<or> st = Failed AtFinalize"
proof -
  note m = main_body_opened[OF assms(1-4), of sch]
  from assms(6) m obtain s where s: "run (alloc_limit w) c info sch (start c f) = Some s"
    by (cases "run (alloc_limit w) c info sch (start c f)") auto
  have np: "mainst s \<noteq> Panic"
    using assms(5) s by (rule session_no_panic)
  from assms(6) m s np have w: "mainst s = AtWait" "wg s = 0"
    by (auto split: if_splits)
  from assms(6) m s np w
  have t: "t = prelude v info c @ evs s @ epilogue @
             fst (finishUpload (debug fl) w (Token c) (part s) (TaskID c) v) @
             (case snd (finishUpload (debug fl) w (Token c) (part s) (TaskID c) v) of
                None \<Rightarrow> [] | Some e \<Rightarrow> [Printf_error ''finishUpload returns error'' e])"
    and d: "st = Done \<or> st = Failed AtFinalize"
    by (auto split: option.splits)
  show ?thesis
    by (rule that[OF s w t d])
qed

lemma finals_finishUpload_head:
  "\<exists>rest. finals (fst (finishUpload dbg w tok n task v)) = CompleteReq n tok # rest"
  by (simp add: finishUpload_finals)

lemma finals_error_print [simp]:
  "finals (case r of None \<Rightarrow> [] | Some e \<Rightarrow> [Printf_error m e]) = []"
  by (cases r) simp_all





text \<open>\<^verbatim>\<open>src/main.go\<close> has the same loop and goes on to \<^verbatim>\<open>finishUpload\<close> in the same way.\<close>

lemma read_error_finalized_mg:
  "main_body_mg creds (world_of [1] Failing (Response 200 (Some (config_of 1 1)))) ''a''
     [Read, Recv FromMain, Reply 0 (ok_reply 1), Read]
   = Some ([Println ''Local: a'', Stat ''a'', Send (GetKSCloudToken ''a'' 1),
            BarStart 1, Open ''a'', GoUploader, FileRead 1,
            Enq \<lparr>content = [1], count = 1\<rparr>, Send (FragmentReq_mg 1 ''tok'' [1]),
            Ack \<lparr>content = [1], count = 1\<rparr>, FileRead 1, WgWait, ChanClose,
            FileClose, BarFinish, Send (UploadFinishReq ''task''),
            Send (CreateVideoReq ''task'' ''a'')],
           Done)"
  by (simp add: eval_mg_defs)


subsection \<open>Completed runs\<close>

lemma enqs_finishUpload [simp]: "enqs (fst (finishUpload dbg w tok n task v)) = []"
  and acks_finishUpload [simp]: "acks (fst (finishUpload dbg w tok n task v)) = []"
  by (simp_all add: finishUpload_def uploadRequest_def request_def
      split: exchange.splits option.splits)

lemma enqs_error_print [simp]:
  "enqs (case r of None \<Rightarrow> [] | Some e \<Rightarrow> [Printf_error m e]) = []"
  "acks (case r of None \<Rightarrow> [] | Some e \<Rightarrow> [Printf_error m e]) = []"
  by (cases r; simp)+

lemma filter_complete_finals: "filter is_complete (sends t) = filter is_complete (finals t)"
proof -
  have "is_complete r \<Longrightarrow> is_finalize r" for r
    by (cases r) simp_all
  then have "(is_finalize r \<and> is_complete r) = is_complete r" for r
    by blast
  then show ?thesis
    by (simp add: finals_def)
qed

lemma sum_list_map_mset:
  assumes "mset xs = mset ys"
  shows "sum_list (map g xs) = (sum_list (map g ys) :: int)"
proof -
  have "sum_mset (image_mset g (mset xs)) = sum_mset (image_mset g (mset ys))"
    using assms by simp
  then show ?thesis
    by (metis mset_map sum_mset_sum_list)
qed

lemma length_concat_int: "int (length (concat xss)) = sum_list (map (\<lambda>xs. int (length xs)) xss)"
  by (induction xss) simp_all

lemma acked_range:
  assumes "\<forall>i. 0 \<le> i \<and> i < int n \<longrightarrow> 1 \<le> count_list xs i"
  shows "{0..<int n} \<subseteq> set xs"
proof
  fix i
  assume "i \<in> {0..<int n}"
  with assms have "1 \<le> count_list xs i" by simp
  then have "count_list xs i \<noteq> 0" by simp
  then show "i \<in> set xs"
    by (simp only: count_list_0_iff) simp
qed

lemma all_acknowledged:
  assumes "session_inv c f s" "mainst s \<noteq> Panic" "wg s = 0"
    and "\<forall>i. 0 \<le> i \<and> i < int (length (enqs (evs s))) \<longrightarrow> 1 \<le> ack_count (evs s) i"
  shows "mset (acks (evs s)) = mset (enqs (evs s))"
proof -
  let ?n = "length (enqs (evs s))"
  let ?xs = "map count (acks (evs s))"
  have l: "length (acks (evs s)) = ?n"
    using counter_zero_iff_lengths[OF assms(1,2)] assms(3) by simp
  have "{0..<int ?n} \<subseteq> set ?xs"
    using assms(4) unfolding ack_count_def by (rule acked_range)
  with acks_counts[OF assms(1,2)] have "set ?xs = {0..<int ?n}" by simp
  then have "card (set ?xs) = length ?xs"
    using l by simp
  then have "distinct ?xs" by (rule card_distinct)
  then have da: "distinct (acks (evs s))"
    by (simp add: distinct_map)
  have de: "distinct (enqs (evs s))"
    using enqs_distinct[OF assms(1,2)] by (simp add: distinct_map)
  from assms(1,2) have sub: "set (acks (evs s)) \<subseteq> set (enqs (evs s))"
    by (simp add: session_inv_def)
  have "card (set (enqs (evs s))) = card (set (acks (evs s)))"
    using distinct_card[OF da] distinct_card[OF de] l by simp
  then have "card (set (enqs (evs s))) \<le> card (set (acks (evs s)))" by simp
  with sub have "set (acks (evs s)) = set (enqs (evs s))"
    by (intro card_seteq) simp_all
  with da de show ?thesis
    by (simp add: set_eq_iff_mset_eq_distinct)
qed

lemma main_body_completed:
  assumes "os_Stat w v = Inr info"
    and "snd (getUploadConfig w info) = Inr c"
    and "snd (uploadRequest (debug fl) w (ResumeReq (Token c))) = None"
    and "os_Open w v = Inr f"
    and "\<not> make_panics (alloc_limit w) (PartSize (Config c) - 1)"
    and "main_body fl w v sch = Some (t, st)"
  shows "enqs t = number 0 (fragments (bufsize c) (unread f))"
    and "length (acks t) = length (enqs t)"
    and "set (acks t) \<subseteq> set (enqs t)"
    and "filter is_complete (sends t) =
           [CompleteReq (int (length (fragments (bufsize c) (unread f)))) (Token c)]"
    and "\<exists>rest. finals t =
           CompleteReq (int (length (fragments (bufsize c) (unread f)))) (Token c) # rest"
    and "st = Done \<or> st = Failed AtFinalize"
    and "(\<forall>i. 0 \<le> i \<and> i < int (length (enqs t)) \<longrightarrow> 1 \<le> ack_count t i) \<Longrightarrow>
           mset (acks t) = mset (enqs t)"
    and "(\<forall>i. 0 \<le> i \<and> i < int (length (enqs t)) \<longrightarrow> 1 \<le> ack_count t i) \<Longrightarrow>
           progress t = int (length (concat (fragments (bufsize c) (unread f))))"
proof -
  from assms obtain s where s: "run (alloc_limit w) c info sch (start c f) = Some s"
    "mainst s = AtWait" "wg s = 0"
    and t: "t = prelude v info c @ evs s @ epilogue @
             fst (finishUpload (debug fl) w (Token c) (part s) (TaskID c) v) @
             (case snd (finishUpload (debug fl) w (Token c) (part s) (TaskID c) v) of
                None \<Rightarrow> [] | Some e \<Rightarrow> [Printf_error ''finishUpload returns error'' e])"
    and d: "st = Done \<or> st = Failed AtFinalize"
    by (rule main_body_reaches_finalize)
  note inv = session_inv_reachable[OF s(1)]
  have np: "mainst s \<noteq> Panic" using s(2) by simp
  note e = at_wait_all_enqueued[OF inv s(2)]
  have et: "enqs t = enqs (evs s)" and at: "acks t = acks (evs s)"
    unfolding t by simp_all
  have ac: "ack_count t i = ack_count (evs s) i" for i
    by (simp add: ack_count_def at)
  show 1: "enqs t = number 0 (fragments (bufsize c) (unread f))"
    using e(1) et by simp
  show "length (acks t) = length (enqs t)"
    using counter_zero_iff_lengths[OF inv np] s(3) by (simp add: et at)
  show "set (acks t) \<subseteq> set (enqs t)"
    using inv np by (simp add: session_inv_def et at)
  obtain rest where r: "finals (fst (finishUpload (debug fl) w (Token c) (part s) (TaskID c) v))
      = CompleteReq (part s) (Token c) # rest"
    using finals_finishUpload_head by blast
  have ft: "finals t = finals (fst (finishUpload (debug fl) w (Token c) (part s) (TaskID c) v))"
    unfolding t by (simp add: session_finals[OF s(1)])
  show "\<exists>rest. finals t =
           CompleteReq (int (length (fragments (bufsize c) (unread f)))) (Token c) # rest"
    using ft r e(2) by simp
  show "filter is_complete (sends t) =
           [CompleteReq (int (length (fragments (bufsize c) (unread f)))) (Token c)]"
    unfolding filter_complete_finals ft finishUpload_finals using e(2) by simp
  show "st = Done \<or> st = Failed AtFinalize" by (rule d)
  show 2: "mset (acks t) = mset (enqs t)"
    if "\<forall>i. 0 \<le> i \<and> i < int (length (enqs t)) \<longrightarrow> 1 \<le> ack_count t i"
    using all_acknowledged[OF inv np s(3)] that by (simp add: et at ac)
  show "progress t = int (length (concat (fragments (bufsize c) (unread f))))"
    if h: "\<forall>i. 0 \<le> i \<and> i < int (length (enqs t)) \<longrightarrow> 1 \<le> ack_count t i"
  proof -
    have "progress t = sum_list (map (\<lambda>p. int (length (content p))) (enqs t))"
      unfolding progress_def using 2[OF h] by (rule sum_list_map_mset)
    also have "\<dots> = sum_list (map (\<lambda>xs. int (length xs)) (map content (enqs t)))"
      by (simp add: comp_def)
    also have "\<dots> = int (length (concat (fragments (bufsize c) (unread f))))"
      unfolding 1 by (simp add: length_concat_int)
    finally show ?thesis .
  qed
qed

subsection \<open>An empty file\<close>

lemma run_MainRead_empty:
  assumes "\<not> make_panics lim (PartSize (Config c) - 1)" "unread f = []"
  shows "run lim c info [MainRead] (start c f) =
           Some ((start c f)\<lparr>part := 0, mainst := AtWait,
                            evs := [FileRead (PartSize (Config c) - 1)]\<rparr>)"
proof -
  have e: "fragments (bufsize c) (unread (osf (start c f))) = []"
    using assms(2) by (simp add: start_def)
  show ?thesis
    by (simp add: step_def read_step_end[OF assms(1) e]) (simp add: start_def)
qed

text \<open>
  C8, as amended. For a file without bytes and a negotiated \<^verbatim>\<open>PartSize\<close> whose read buffer
  is allocated (\<^verbatim>\<open>PartSize - 1\<close> is not negative and not beyond what \<^verbatim>\<open>make\<close> allocates): in no
  state of the session has a part been enqueued or the counter left zero; the schedule in
  which only the main goroutine runs (one \<open>MainRead\<close>, no action of a worker) is a complete
  run, so \<^verbatim>\<open>wg.Wait()\<close> returns at once; and in every complete run the handshake is started,
  with the fragment count 0.
\<close>

theorem empty_file_finalized:
  assumes "os_Stat w v = Inr info"
    and "snd (getUploadConfig w info) = Inr c"
    and "snd (uploadRequest (debug fl) w (ResumeReq (Token c))) = None"
    and "os_Open w v = Inr f"
    and "unread f = []"
    and "1 \<le> PartSize (Config c)" and "PartSize (Config c) - 1 \<le> alloc_limit w"
  shows "(\<forall>sch s. run (alloc_limit w) c info sch (start c f) = Some s \<longrightarrow>
             enqs (evs s) = [] \<and> wg s = 0)
       \<and> (\<exists>t st. main_body fl w v [MainRead] = Some (t, st))
       \<and> (\<forall>sch t st. main_body fl w v sch = Some (t, st) \<longrightarrow>
             enqs t = [] \<and> acks t = []
           \<and> (st = Done \<or> st = Failed AtFinalize)
           \<and> (\<exists>rest. finals t = CompleteReq 0 (Token c) # rest))"
proof -
  have al: "\<not> make_panics (alloc_limit w) (PartSize (Config c) - 1)"
    using assms(6,7) by (simp add: make_panics_def)
  have a: "enqs (evs s) = [] \<and> wg s = 0"
    if r: "run (alloc_limit w) c info sch (start c f) = Some s" for sch s
  proof -
    note inv = session_inv_reachable[OF r]
    have np: "mainst s \<noteq> Panic"
      using al r by (rule session_no_panic)
    from inv np assms(5) have e: "enqs (evs s) = []"
      by (simp add: session_inv_def)
    from inv np have "length (enqs (evs s)) = owed s + length (acks (evs s))"
      by (simp add: session_inv_def)
    with e have "owed s = 0" by simp
    with inv np e show ?thesis
      by (simp add: session_inv_def)
  qed
  have b: "\<exists>t st. main_body fl w v [MainRead] = Some (t, st)"
    unfolding main_body_opened[OF assms(1-4)] run_MainRead_empty[OF al assms(5)]
    by (simp add: start_def)
  have c: "enqs t = [] \<and> acks t = [] \<and> (st = Done \<or> st = Failed AtFinalize)
           \<and> (\<exists>rest. finals t = CompleteReq 0 (Token c) # rest)"
    if m: "main_body fl w v sch = Some (t, st)" for sch t st
    using main_body_completed(1,2,5,6)[OF assms(1-4) al m] assms(5) by simp
  from a b c show ?thesis by blast
qed

theorem empty_file_finalized_witness:
  "main_body creds (world_of [] AtEOF (Response 200 (Some (config_of 5 2)))) ''a'' [MainRead]
   = Some ([Println ''Local: a'', Stat ''a'', Send (GetKSCloudToken ''a'' 0),
            Send (ResumeReq ''tok''), BarStart 0, Open ''a'', GoUploader,
            GoUploader, FileRead 4, WgWait, ChanClose, FileClose, BarFinish,
            Send (CompleteReq 0 ''tok''), Send (CreateVideoReq ''task'' ''a''),
            Send (UploadFinishReq ''task'')],
           Done)
   \<and> (\<exists>t st. main_body creds (world_of [] AtEOF (Response 200 (Some (config_of 5 2)))) ''a''
                 [MainRead] = Some (t, st))"
proof -
  let ?w = "world_of [] AtEOF (Response 200 (Some (config_of 5 2)))"
  let ?info = "\<lparr>info_Name = ''a'', info_Size = 0\<rparr>"
  let ?f = "\<lparr>unread = [], ending = AtEOF\<rparr>"
  have 1: "os_Stat ?w ''a'' = Inr ?info"
    by (simp add: world_of_def)
  have 2: "snd (getUploadConfig ?w ?info) = Inr (config_of 5 2)"
    by (simp add: getUploadConfig_def request_def world_of_def)
  have 3: "snd (uploadRequest (debug creds) ?w (ResumeReq (Token (config_of 5 2)))) = None"
    by (simp add: uploadRequest_def world_of_def)
  have 4: "os_Open ?w ''a'' = Inr ?f"
    by (simp add: world_of_def)
  have 5: "unread ?f = []" by simp
  have 6: "1 \<le> PartSize (Config (config_of 5 2))"
    by (simp add: config_of_def)
  have 7: "PartSize (Config (config_of 5 2)) - 1 \<le> alloc_limit ?w"
    by (simp add: config_of_def world_of_def)
  have 8: "main_body creds ?w ''a'' [MainRead]
   = Some ([Println ''Local: a'', Stat ''a'', Send (GetKSCloudToken ''a'' 0),
            Send (ResumeReq ''tok''), BarStart 0, Open ''a'', GoUploader,
            GoUploader, FileRead 4, WgWait, ChanClose, FileClose, BarFinish,
            Send (CompleteReq 0 ''tok''), Send (CreateVideoReq ''task'' ''a''),
            Send (UploadFinishReq ''task'')],
           Done)"
    by (simp add: eval_defs numeral_2_eq_2)
  from empty_file_finalized[OF 1 2 3 4 5 6 7] 8 show ?thesis by blast
qed

text \<open>
  The claim C8 as stated fails where the negotiation answers with a \<^verbatim>\<open>PartSize\<close> of 0: the
  allocation of the read buffer, \<^verbatim>\<open>make([]byte, -1)\<close>, panics in the first iteration of the
  read loop, and the program dies before \<^verbatim>\<open>wg.Wait()\<close>, with no request of the handshake.
\<close>

theorem empty_file_negative_buffer_counterexample:
  "main_body creds (world_of [] AtEOF (Response 200 (Some (config_of 0 1)))) ''a'' [MainRead]
   = Some ([Println ''Local: a'', Stat ''a'', Send (GetKSCloudToken ''a'' 0),
            Send (ResumeReq ''tok''), BarStart 0, Open ''a'', GoUploader], Died)
   \<and> finals [Println ''Local: a'', Stat ''a'', Send (GetKSCloudToken ''a'' 0),
            Send (ResumeReq ''tok''), BarStart 0, Open ''a'', GoUploader] = []"
  by (simp add: eval_defs)

text \<open>So it is where the buffer is too large to be allocated.\<close>

lemma empty_file_huge_buffer:
  "main_body creds (world_of [] AtEOF (Response 200 (Some (config_of 4611686018427387904 1))))
     ''a'' [MainRead]
   = Some ([Println ''Local: a'', Stat ''a'', Send (GetKSCloudToken ''a'' 0),
            Send (ResumeReq ''tok''), BarStart 0, Open ''a'', GoUploader], Died)"
  by (simp add: eval_defs)

subsection \<open>The scenario of a 10 MB file\<close>







subsection \<open>The Fragment Reader\<close>

lemma count_number: "map count (number i cs) = map (\<lambda>k. i + int k) [0..<length cs]"
proof (induction cs arbitrary: i)
  case Nil
  show ?case by simp
next
  case (Cons c cs)
  have u: "[0..<Suc (length cs)] = 0 # map Suc [0..<length cs]"
    by (simp only: map_Suc_upt upt_conv_Cons[of 0 "Suc (length cs)"] zero_less_Suc)
  have "map count (number i (c # cs)) = i # map (\<lambda>k. (i + 1) + int k) [0..<length cs]"
    by (simp add: Cons del: upt_Suc)
  also have "\<dots> = map (\<lambda>k. i + int k) (0 # map Suc [0..<length cs])"
    by (simp add: comp_def algebra_simps del: upt_Suc)
  finally show ?case
    unfolding u[symmetric] by (simp del: upt_Suc)
qed

lemma fragments_sizes:
  "\<forall>x \<in> set (fragments n xs). 0 < length x \<and> length x \<le> n"
proof (induction n xs rule: fragments.induct)
  case (1 n xs)
  show ?case
  proof (cases "n = 0 \<or> xs = []")
    case True
    then show ?thesis by auto
  next
    case False
    then have f: "fragments n xs = take n xs # fragments n (drop n xs)"
      by (simp add: fragments_Cons)
    from 1 False have ih: "\<forall>x \<in> set (fragments n (drop n xs)). 0 < length x \<and> length x \<le> n"
      by simp
    have h: "0 < length (take n xs) \<and> length (take n xs) \<le> n"
      using False by simp
    show ?thesis
      unfolding f using ih h by simp
  qed
qed

lemma fragments_full:
  "\<forall>x \<in> set (butlast (fragments n xs)). length x = n"
proof (induction n xs rule: fragments.induct)
  case (1 n xs)
  show ?case
  proof (cases "n = 0 \<or> xs = []")
    case True
    then show ?thesis by auto
  next
    case False
    then have f: "fragments n xs = take n xs # fragments n (drop n xs)"
      by (simp add: fragments_Cons)
    from 1 False have ih: "\<forall>x \<in> set (butlast (fragments n (drop n xs))). length x = n"
      by simp
    show ?thesis
    proof (cases "fragments n (drop n xs) = []")
      case True
      then show ?thesis by (simp add: f)
    next
      case ne: False
      then have "drop n xs \<noteq> []"
        by (simp add: fragments_eq_Nil)
      then have "length (take n xs) = n"
        by simp
      with ih ne show ?thesis
        unfolding f by simp
    qed
  qed
qed

text \<open>
  What \<^verbatim>\<open>src/unnamed/part_000\<close> does for C1: when the read loop has ended, the parts
  enqueued are numbered 0, 1, 2, ... without gaps, all but the last have as many bytes as
  the read buffer (\<^verbatim>\<open>PartSize - 1\<close>), none is empty or longer, and their contents in the
  order of their indices are the bytes of the file.
\<close>

lemma reader_part_000:
  assumes "run lim c info sch (start c f) = Some s" and "mainst s = AtWait" and "0 < bufsize c"
  shows "map count (enqs (evs s)) = map int [0..<length (enqs (evs s))]
       \<and> (\<forall>p \<in> set (butlast (enqs (evs s))). length (content p) = bufsize c)
       \<and> (\<forall>p \<in> set (enqs (evs s)). 0 < length (content p) \<and> length (content p) \<le> bufsize c)
       \<and> concat (map content (enqs (evs s))) = unread f"
proof -
  note e = at_wait_all_enqueued(1)[OF session_inv_reachable[OF assms(1)] assms(2)]
  have 1: "map count (enqs (evs s)) = map int [0..<length (enqs (evs s))]"
    unfolding e by (simp add: count_number)
  have m: "map content (enqs (evs s)) = fragments (bufsize c) (unread f)"
    unfolding e by simp
  have mb: "map content (butlast (enqs (evs s))) = butlast (fragments (bufsize c) (unread f))"
    using m by (simp add: map_butlast)
  have 2: "\<forall>p \<in> set (butlast (enqs (evs s))). length (content p) = bufsize c"
  proof
    fix p
    assume "p \<in> set (butlast (enqs (evs s)))"
    then have "content p \<in> set (map content (butlast (enqs (evs s))))"
      by simp
    then have "content p \<in> set (butlast (fragments (bufsize c) (unread f)))"
      unfolding mb .
    then show "length (content p) = bufsize c"
      using fragments_full by blast
  qed
  have 3: "\<forall>p \<in> set (enqs (evs s)). 0 < length (content p) \<and> length (content p) \<le> bufsize c"
  proof
    fix p
    assume "p \<in> set (enqs (evs s))"
    then have "content p \<in> set (map content (enqs (evs s)))"
      by simp
    then have "content p \<in> set (fragments (bufsize c) (unread f))"
      unfolding m .
    then show "0 < length (content p) \<and> length (content p) \<le> bufsize c"
      using fragments_sizes by blast
  qed
  have 4: "concat (map content (enqs (evs s))) = unread f"
    unfolding m using assms(3) by (simp add: concat_fragments)
  from 1 2 3 4 show ?thesis by blast
qed

text \<open>
  C1 on \<^verbatim>\<open>src/main.go\<close>: a file of the three bytes 1, 2, 3 and a negotiated fragment size
  of 2. The parts carry the indices 1 and 2; every part is the whole buffer, so the last
  one has two bytes, the byte read and the stale second byte of the read before; the
  bodies posted are 1, 2 and 3, 2.
\<close>

theorem reader_shared_buffer_mg:
  "main_body_mg creds (world_of [1, 2, 3] AtEOF (Response 200 (Some (config_of 2 1)))) ''a''
     [Read, Recv FromMain, Reply 0 (ok_reply 2), Read, Recv FromMain, Reply 0 (ok_reply 2), Read]
   = Some ([Println ''Local: a'', Stat ''a'', Send (GetKSCloudToken ''a'' 3),
            BarStart 3, Open ''a'', GoUploader, FileRead 2,
            Enq \<lparr>content = [1, 2], count = 1\<rparr>,
            Send (FragmentReq_mg 1 ''tok'' [1, 2]),
            Ack \<lparr>content = [1, 2], count = 1\<rparr>, FileRead 2,
            Enq \<lparr>content = [3, 2], count = 2\<rparr>,
            Send (FragmentReq_mg 2 ''tok'' [3, 2]),
            Ack \<lparr>content = [3, 2], count = 2\<rparr>, FileRead 2, WgWait, ChanClose,
            FileClose, BarFinish, Send (UploadFinishReq ''task''),
            Send (CreateVideoReq ''task'' ''a'')],
           Done)"
  by (simp add: eval_mg_defs)

subsection \<open>The upload of a fragment\<close>

text \<open>
  What \<^verbatim>\<open>src/unnamed/part_000\<close> does for C2: a part is acknowledged exactly for an answer
  that decodes to \<^verbatim>\<open>result = 1\<close> and to a \<^verbatim>\<open>size\<close> equal to the length of the part; every
  other outcome starts a goroutine that will send the worker's variable \<^verbatim>\<open>item\<close> on the
  channel, and changes neither the counter nor the progress nor the acknowledgments, and
  reports no error.
\<close>

lemma uploader_acknowledged_iff:
  "uploader item x = Acknowledged \<longleftrightarrow>
     (\<exists>st r. x = Response st (Some r) \<and> PartResult r = 1
             \<and> Size r = int (length (content item)))"
  by (auto simp: uploader_def split: exchange.splits option.splits)

lemma uploader_retried_effect:
  assumes "uploader item x = Retried"
  shows "wg (reply_step k item x s) = wg s \<and> bar (reply_step k item x s) = bar s
       \<and> evs (reply_step k item x s) = evs s
       \<and> mainst (reply_step k item x s) = mainst s
       \<and> retrying (reply_step k item x s) = retrying s @ [Spawned k]
       \<and> workers (reply_step k item x s) = (workers s)[k := Waiting (Some item)]"
  by (simp add: reply_step_retried[OF assms])

text \<open>
  When the goroutine reads \<^verbatim>\<open>item\<close> before its worker receives again, it offers the part
  that failed. Any number \<open>n\<close> of failed attempts that are retried in this way leaves the
  part with the worker as it was, the counter and the progress unchanged, and nothing
  acknowledged.
\<close>

lemma uploader_retries_unbounded:
  assumes "workers s = [Uploading item]" and "retrying s = []" and "mainst s \<noteq> Panic"
    and "uploader item x = Retried"
  shows "\<exists>t. run lim c info
               (concat (replicate n [Answer 0 x, Evaluate 0, Receive 0 (FromRetry 0)])) s
               = Some (s\<lparr>evs := evs s @ t\<rparr>) \<and> acks t = []"
  using assms(1-3)
proof (induction n arbitrary: s)
  case 0
  show ?case by (intro exI[of _ "[]"]) simp
next
  case (Suc n)
  let ?e = "[Requeue item,
    Send (postFragment (Token c) (PartSize (Config c) - 1) (info_Size info) item)]"
  let ?s1 = "s\<lparr>workers := [Waiting (Some item)], retrying := [Spawned 0]\<rparr>"
  let ?s2 = "s\<lparr>workers := [Waiting (Some item)], retrying := [Offering item],
                evs := evs s @ [Requeue item]\<rparr>"
  let ?s3 = "s\<lparr>evs := evs s @ ?e\<rparr>"
  have 1: "step lim c info (Answer 0 x) s = Some ?s1"
    using Suc.prems by (simp add: step_def reply_step_retried[OF assms(4)])
  have 2: "step lim c info (Evaluate 0) ?s1 = Some ?s2"
    using Suc.prems by (simp add: step_def)
  have 3: "step lim c info (Receive 0 (FromRetry 0)) ?s2 = Some ?s3"
    using Suc.prems by (simp add: step_def recv_item_def)
  have p: "workers ?s3 = [Uploading item]" "retrying ?s3 = []" "mainst ?s3 \<noteq> Panic"
    using Suc.prems by simp_all
  from Suc.IH[OF p] obtain t
    where t: "run lim c info
        (concat (replicate n [Answer 0 x, Evaluate 0, Receive 0 (FromRetry 0)])) ?s3
      = Some (?s3\<lparr>evs := evs ?s3 @ t\<rparr>)" "acks t = []"
    by blast
  have "run lim c info
      (concat (replicate (Suc n) [Answer 0 x, Evaluate 0, Receive 0 (FromRetry 0)])) s
      = Some (s\<lparr>evs := evs s @ (?e @ t)\<rparr>)"
    using 1 2 3 t(1) by simp
  moreover have "acks (?e @ t) = []"
    using t(2) by simp
  ultimately show ?case by blast
qed

text \<open>
  When the worker receives its next part first, the goroutine offers that part and not
  the part that failed: here part 0 fails, the worker takes part 1 from the main
  goroutine, and the goroutine then offers part 1.
\<close>

lemma uploader_retry_reads_late:
  "run 100 (config_of 2 1) \<lparr>info_Name = ''a'', info_Size = 2\<rparr>
     [MainRead, Receive 0 FromMain, Answer 0 DoFails, MainRead, Receive 0 FromMain, Evaluate 0]
     (start (config_of 2 1) \<lparr>unread = [1, 2], ending = AtEOF\<rparr>)
   = Some \<lparr>osf = \<lparr>unread = [], ending = AtEOF\<rparr>, part = 1, mainst = InLoop,
            workers = [Uploading \<lparr>content = [2], count = 1\<rparr>],
            retrying = [Offering \<lparr>content = [2], count = 1\<rparr>], wg = 2, bar = 0,
            evs = [FileRead 1, Enq \<lparr>content = [1], count = 0\<rparr>,
                   Send (FragmentReq ''tok'' 0 [1] 0 0 2), FileRead 1,
                   Enq \<lparr>content = [2], count = 1\<rparr>,
                   Send (FragmentReq ''tok'' 1 [2] 1 1 2),
                   Requeue \<lparr>content = [2], count = 1\<rparr>]\<rparr>"
  by (simp add: eval_defs)

text \<open>
  C2 on \<^verbatim>\<open>src/main.go\<close>: the answer to the POST has status 500, \<^verbatim>\<open>result = 0\<close> and
  \<^verbatim>\<open>size = 0\<close> for a part of one byte; the worker acknowledges the part, and the file is
  finalized.
\<close>

theorem uploader_unchecked_answer_mg:
  "uploader_mg False (Response 500 (Some \<lparr>PartResult = 0, Checksum = [], Size = 0\<rparr>))
     = Acknowledged
   \<and> main_body_mg creds (world_of [7] AtEOF (Response 200 (Some (config_of 1 1)))) ''a''
       [Read, Recv FromMain,
        Reply 0 (Response 500 (Some \<lparr>PartResult = 0, Checksum = [], Size = 0\<rparr>)), Read]
     = Some ([Println ''Local: a'', Stat ''a'', Send (GetKSCloudToken ''a'' 1),
              BarStart 1, Open ''a'', GoUploader, FileRead 1,
              Enq \<lparr>content = [7], count = 1\<rparr>, Send (FragmentReq_mg 1 ''tok'' [7]),
              Ack \<lparr>content = [7], count = 1\<rparr>, FileRead 1, WgWait, ChanClose,
              FileClose, BarFinish, Send (UploadFinishReq ''task''),
              Send (CreateVideoReq ''task'' ''a'')],
             Done)"
  by (simp add: eval_mg_defs)

text \<open>\<^verbatim>\<open>src/unnamed/part_000\<close> does not acknowledge the part for this answer.\<close>

lemma uploader_checked_answer:
  "uploader \<lparr>content = [7], count = 0\<rparr>
     (Response 500 (Some \<lparr>PartResult = 0, Checksum = [], Size = 0\<rparr>)) = Retried"
  by (simp add: uploader_def)

end
